theory Spec2Isabelle
  imports Main
begin

section \<open>Errors, log lines and events\<close>

text \<open>
  The error classes that the three core files import from \<^verbatim>\<open>utils/errors.js\<close>, and the
  built-in \<^verbatim>\<open>Error\<close> that the services throw. A thrown error is a value \<open>Exn c msg\<close>;
  a function that can throw returns \<open>error + 'a\<close>. \<open>class_name\<close> is the JavaScript name
  of the class.
\<close>

datatype error_class =
  Error | ServiceError | ServiceStartupError | ServiceShutdownError
  | InitializationError | SystemError

datatype error = Exn (err_class: error_class) (err_message: string)

fun class_name :: "error_class \<Rightarrow> string" where
  "class_name Error = ''Error''"
| "class_name ServiceError = ''ServiceError''"
| "class_name ServiceStartupError = ''ServiceStartupError''"
| "class_name ServiceShutdownError = ''ServiceShutdownError''"
| "class_name InitializationError = ''InitializationError''"
| "class_name SystemError = ''SystemError''"

text \<open>
  A log line is its level, its message and the name of the service or component it is
  about (the other fields of the context object are left out).
\<close>

datatype LogLevel = Debug | Info | Warn | Err

type_synonym log_entry = "LogLevel \<times> string \<times> string"

text \<open>The events a service puts on the event bus, with the service name as payload.\<close>

datatype ServiceEvent =
  service_started string
  | service_error string string
  | service_stopped string
  | service_restarted string
  | service_failed string string

section \<open>Lifecycle state machine: \<^verbatim>\<open>BaseBackendService\<close>\<close>

datatype ServiceState = STOPPED | STARTING | RUNNING | STOPPING | ERROR | MAINTENANCE

text \<open>
  \<^verbatim>\<open>ServiceMetrics\<close> without its time stamps (\<^verbatim>\<open>uptime\<close>, \<^verbatim>\<open>lastRestart\<close>) and without
  the custom gauges; \<^verbatim>\<open>ServiceConfig\<close> as it is, its numbers as integers.
\<close>

record ServiceMetrics =
  restartCount :: nat
  errorCount :: nat
  lastError :: "string option"

record ServiceConfig =
  startupTimeout :: int
  shutdownTimeout :: int
  healthCheckInterval :: int
  maxRestartAttempts :: int
  restartDelay :: int
  enableAutoRestart :: bool

text \<open>
  What the subclass supplies is outside the base class: the optional hooks and the
  abstract \<^verbatim>\<open>doStart\<close>, \<^verbatim>\<open>doStop\<close>, \<^verbatim>\<open>doHealthCheck\<close>. One run of such a method
  either resolves or rejects with a message. \<^verbatim>\<open>doStart\<close> and \<^verbatim>\<open>doStop\<close> are raced
  against a timer (\<^verbatim>\<open>Promise.race\<close>): \<open>Late\<close> is the run in which the timer wins.
  A hook that is not defined is \<open>None\<close>.
\<close>

datatype 'a outcome = Resolve 'a | Reject string

datatype raced = Within "unit outcome" | Late

record start_impl =
  beforeStart :: "unit outcome option"
  doStart :: raced
  afterStart :: "unit outcome option"

record stop_impl =
  beforeStop :: "unit outcome option"
  doStop :: raced
  afterStop :: "unit outcome option"

datatype impl_method = BeforeStart | DoStart | AfterStart | BeforeStop | DoStop | AfterStop
  | DoHealthCheck

text \<open>
  The fields of the class, and four lists that only observe it: \<open>logged\<close> (the lines the
  base class writes to its logger), \<open>events\<close> (what it emits), \<open>history\<close> (every value
  assigned to \<^verbatim>\<open>this.state\<close>, in order) and \<open>invoked\<close> (the subclass methods called).
  \<open>eventBus\<close> is the address of the bus object that the constructor was given: two
  objects share a bus when the addresses are equal. \<open>timer_handle\<close> says whether
  \<^verbatim>\<open>this.healthCheckInterval\<close> holds a handle; \<open>live_timers\<close> counts the intervals that
  \<^verbatim>\<open>setInterval\<close> created and \<^verbatim>\<open>clearInterval\<close> has not cleared. The time stamps
  \<^verbatim>\<open>startTime\<close> and \<^verbatim>\<open>lastHealthCheck\<close> are left out.

  The methods are \<^verbatim>\<open>async\<close>: a call runs until it awaits and goes on when what it
  awaits has settled, and other calls on the service and its timer callbacks run in
  between. Each function of this section is one call taken from its first statement to
  its return with nothing in between, which is what a caller gets who awaits every
  call before the next and whose service has no timer callback waiting. It may be
  given a service in any state. The calls cut at their awaits, and their
  interleavings, follow in the next section.
\<close>

record service =
  name :: string
  dependencies :: "string list"
  isRequired :: bool
  config :: ServiceConfig
  eventBus :: nat
  state :: ServiceState
  metrics :: ServiceMetrics
  timer_handle :: bool
  live_timers :: nat
  logged :: "log_entry list"
  events :: "ServiceEvent list"
  history :: "ServiceState list"
  invoked :: "impl_method list"

text \<open>
  The constructor. Every service of these files is constructed by the orchestrator, on
  the one bus that it also gives to the service manager: address 0.
\<close>

definition new_service :: "string \<Rightarrow> string list \<Rightarrow> bool \<Rightarrow> ServiceConfig \<Rightarrow> service" where
  "new_service n deps req cfg =
     \<lparr> name = n, dependencies = deps, isRequired = req, config = cfg, eventBus = 0,
       state = STOPPED,
       metrics = \<lparr> restartCount = 0, errorCount = 0, lastError = None \<rparr>,
       timer_handle = False, live_timers = 0,
       logged = [], events = [], history = [], invoked = [] \<rparr>"

definition DEFAULT_SERVICE_CONFIG :: ServiceConfig where
  "DEFAULT_SERVICE_CONFIG =
     \<lparr> startupTimeout = 30000, shutdownTimeout = 15000, healthCheckInterval = 10000,
       maxRestartAttempts = 3, restartDelay = 2000, enableAutoRestart = True \<rparr>"

definition set_state :: "ServiceState \<Rightarrow> service \<Rightarrow> service" where
  "set_state v s = s\<lparr> state := v, history := history s @ [v] \<rparr>"

definition log_line :: "LogLevel \<Rightarrow> string \<Rightarrow> service \<Rightarrow> service" where
  "log_line l msg s = s\<lparr> logged := logged s @ [(l, msg, name s)] \<rparr>"

definition emit :: "ServiceEvent \<Rightarrow> service \<Rightarrow> service" where
  "emit e s = s\<lparr> events := events s @ [e] \<rparr>"

definition record_error :: "string \<Rightarrow> service \<Rightarrow> service" where
  "record_error msg s =
     s\<lparr> metrics := (metrics s)\<lparr> errorCount := Suc (errorCount (metrics s)),
                                  lastError := Some msg \<rparr> \<rparr>"

text \<open>An optional hook: not called when absent, else called once.\<close>

definition run_hook :: "impl_method \<Rightarrow> unit outcome option \<Rightarrow> service \<Rightarrow> (string + unit) \<times> service" where
  "run_hook h r s =
     (case r of
        None \<Rightarrow> (Inr (), s)
      | Some (Resolve _) \<Rightarrow> (Inr (), s\<lparr> invoked := invoked s @ [h] \<rparr>)
      | Some (Reject msg) \<Rightarrow> (Inl msg, s\<lparr> invoked := invoked s @ [h] \<rparr>))"

text \<open>The raced call: the timer's rejection carries the message built from the name.\<close>

definition run_raced :: "impl_method \<Rightarrow> raced \<Rightarrow> string \<Rightarrow> service \<Rightarrow> (string + unit) \<times> service" where
  "run_raced h r timeout_msg s =
     (case r of
        Within (Resolve _) \<Rightarrow> (Inr (), s\<lparr> invoked := invoked s @ [h] \<rparr>)
      | Within (Reject msg) \<Rightarrow> (Inl msg, s\<lparr> invoked := invoked s @ [h] \<rparr>)
      | Late \<Rightarrow> (Inl timeout_msg, s\<lparr> invoked := invoked s @ [h] \<rparr>))"

definition startHealthChecks :: "service \<Rightarrow> service" where
  "startHealthChecks s =
     (if healthCheckInterval (config s) \<le> 0 then s
      else s\<lparr> timer_handle := True, live_timers := Suc (live_timers s) \<rparr>)"

definition stopHealthChecks :: "service \<Rightarrow> service" where
  "stopHealthChecks s =
     (if timer_handle s then s\<lparr> timer_handle := False, live_timers := live_timers s - 1 \<rparr>
      else s)"

text \<open>The body of the \<^verbatim>\<open>try\<close> block of \<^verbatim>\<open>start()\<close> up to the last hook.\<close>

definition start_steps :: "start_impl \<Rightarrow> service \<Rightarrow> (string + unit) \<times> service" where
  "start_steps impl s =
     (case run_hook BeforeStart (beforeStart impl) s of
        (Inl msg, s1) \<Rightarrow> (Inl msg, s1)
      | (Inr _, s1) \<Rightarrow>
          (case run_raced DoStart (doStart impl)
                  (''Service '' @ name s @ '' startup timeout'') s1 of
             (Inl msg, s2) \<Rightarrow> (Inl msg, s2)
           | (Inr _, s2) \<Rightarrow> run_hook AfterStart (afterStart impl) s2))"

definition start :: "start_impl \<Rightarrow> service \<Rightarrow> (error + unit) \<times> service" where
  "start impl s =
     (if state s = RUNNING then (Inr (), log_line Warn ''Service already running'' s)
      else if state s = STARTING then
        (Inl (Exn ServiceStartupError (''Service '' @ name s @ '' is already starting'')), s)
      else
        (case start_steps impl (set_state STARTING (log_line Info ''Starting service'' s)) of
           (Inr _, s1) \<Rightarrow>
             (Inr (),
              log_line Info ''Service started successfully''
                (emit (service_started (name s))
                  (startHealthChecks (set_state RUNNING s1))))
         | (Inl msg, s1) \<Rightarrow>
             (Inl (Exn ServiceStartupError (''Failed to start service '' @ name s)),
              emit (service_error (name s) msg)
                (log_line Err ''Service startup failed''
                  (record_error msg (set_state ERROR s1))))))"

definition stop_steps :: "stop_impl \<Rightarrow> service \<Rightarrow> (string + unit) \<times> service" where
  "stop_steps impl s =
     (case run_hook BeforeStop (beforeStop impl) (stopHealthChecks s) of
        (Inl msg, s1) \<Rightarrow> (Inl msg, s1)
      | (Inr _, s1) \<Rightarrow>
          (case run_raced DoStop (doStop impl)
                  (''Service '' @ name s @ '' shutdown timeout'') s1 of
             (Inl msg, s2) \<Rightarrow> (Inl msg, s2)
           | (Inr _, s2) \<Rightarrow> run_hook AfterStop (afterStop impl) s2))"

definition stop :: "stop_impl \<Rightarrow> service \<Rightarrow> (error + unit) \<times> service" where
  "stop impl s =
     (if state s = STOPPED then (Inr (), log_line Warn ''Service already stopped'' s)
      else if state s = STOPPING then
        (Inl (Exn ServiceShutdownError (''Service '' @ name s @ '' is already stopping'')), s)
      else
        (case stop_steps impl (set_state STOPPING (log_line Info ''Stopping service'' s)) of
           (Inr _, s1) \<Rightarrow>
             (Inr (),
              log_line Info ''Service stopped successfully''
                (emit (service_stopped (name s)) (set_state STOPPED s1)))
         | (Inl msg, s1) \<Rightarrow>
             (Inl (Exn ServiceShutdownError (''Failed to stop service '' @ name s)),
              log_line Err ''Service shutdown failed''
                (record_error msg (set_state ERROR s1)))))"

text \<open>
  \<^verbatim>\<open>restart()\<close>: stop, wait, start, count; any failure is rethrown as a
  \<^verbatim>\<open>ServiceError\<close> and the service stays as the failed call left it.
\<close>

definition restart :: "stop_impl \<Rightarrow> start_impl \<Rightarrow> service \<Rightarrow> (error + unit) \<times> service" where
  "restart simpl timpl s =
     (case stop simpl (log_line Info ''Restarting service'' s) of
        (Inl e, s1) \<Rightarrow> (Inl (Exn ServiceError (''Failed to restart service '' @ name s)), s1)
      | (Inr _, s1) \<Rightarrow>
          (case start timpl s1 of
             (Inl e, s2) \<Rightarrow> (Inl (Exn ServiceError (''Failed to restart service '' @ name s)), s2)
           | (Inr _, s2) \<Rightarrow>
               (Inr (),
                emit (service_restarted (name s))
                  (s2\<lparr> metrics := (metrics s2)\<lparr> restartCount := Suc (restartCount (metrics s2)) \<rparr> \<rparr>))))"

text \<open>\<^verbatim>\<open>healthCheck()\<close>; the argument is what \<^verbatim>\<open>doHealthCheck()\<close> does if it is called.\<close>

definition healthCheck :: "bool outcome \<Rightarrow> service \<Rightarrow> bool \<times> service" where
  "healthCheck h s =
     (if state s \<noteq> RUNNING then (False, s)
      else
        (case h of
           Resolve healthy \<Rightarrow> (healthy, s\<lparr> invoked := invoked s @ [DoHealthCheck] \<rparr>)
         | Reject msg \<Rightarrow>
             (False, log_line Err ''Health check failed''
                       (s\<lparr> invoked := invoked s @ [DoHealthCheck] \<rparr>))))"

text \<open>
  The callback that \<^verbatim>\<open>startHealthChecks\<close> hands to \<^verbatim>\<open>setInterval\<close>, and one firing of
  a timer: the callback runs when an interval is live.
\<close>

definition healthCheckCallback ::
  "bool outcome \<Rightarrow> stop_impl \<Rightarrow> start_impl \<Rightarrow> service \<Rightarrow> service" where
  "healthCheckCallback h simpl timpl s =
     (case healthCheck h s of
        (healthy, s1) \<Rightarrow>
          (if \<not> healthy \<and> enableAutoRestart (config s1) then
             (if int (restartCount (metrics s1)) < maxRestartAttempts (config s1) then
                (case restart simpl timpl
                        (log_line Warn ''Service unhealthy, attempting restart'' s1) of
                   (Inl e, s2) \<Rightarrow> log_line Err ''Health check error'' s2
                 | (Inr _, s2) \<Rightarrow> s2)
              else
                emit (service_failed (name s1) ''restart_limit_exceeded'')
                  (set_state ERROR
                    (log_line Err ''Service restart limit exceeded''
                      (log_line Warn ''Service unhealthy, attempting restart'' s1))))
           else s1))"

definition timer_fires ::
  "bool outcome \<Rightarrow> stop_impl \<Rightarrow> start_impl \<Rightarrow> service \<Rightarrow> service" where
  "timer_fires h simpl timpl s =
     (if live_timers s = 0 then s else healthCheckCallback h simpl timpl s)"

section \<open>Calls that overlap\<close>

text \<open>
  A call in progress is the \<^verbatim>\<open>await\<close> at which it waits, or its return. \<^verbatim>\<open>start()\<close>
  awaits the hook \<^verbatim>\<open>beforeStart\<close> (if the subclass has one), the race of \<^verbatim>\<open>doStart\<close>
  against the timeout, and the hook \<^verbatim>\<open>afterStart\<close> (if there is one); \<^verbatim>\<open>stop()\<close>
  likewise. \<^verbatim>\<open>restart()\<close> awaits its \<^verbatim>\<open>stop()\<close>, the delay and its \<^verbatim>\<open>start()\<close>; the
  timer callback awaits \<^verbatim>\<open>healthCheck()\<close> (which awaits \<^verbatim>\<open>doHealthCheck\<close> when the
  state is Running, and has returned false when it is not) and its \<^verbatim>\<open>restart()\<close>.

  What runs between two awaits runs without interruption. \<open>start_begin\<close> is
  \<^verbatim>\<open>start()\<close> from the call to its first \<^verbatim>\<open>await\<close> or, when a guard applies, to its
  return; \<open>start_resume\<close> takes the call from one \<^verbatim>\<open>await\<close>, what it waited for having
  settled as the implementation says, to the next or to the return. A subclass
  method is entered in \<open>invoked\<close> when it is called.
\<close>

datatype start_call = At_beforeStart | At_doStart | At_afterStart
  | Start_returned "error + unit"

datatype stop_call = At_beforeStop | At_doStop | At_afterStop
  | Stop_returned "error + unit"

datatype restart_call = In_stop stop_call | In_delay | In_start start_call
  | Restart_returned "error + unit"

datatype callback_call = In_healthCheck bool | In_restart restart_call | Callback_returned

text \<open>The end of the \<^verbatim>\<open>try\<close> block of \<^verbatim>\<open>start()\<close>, its \<^verbatim>\<open>catch\<close>, and the raced call.\<close>

definition start_succeeds :: "service \<Rightarrow> start_call \<times> service" where
  "start_succeeds s =
     (Start_returned (Inr ()),
      log_line Info ''Service started successfully''
        (emit (service_started (name s)) (startHealthChecks (set_state RUNNING s))))"

definition start_fails :: "string \<Rightarrow> service \<Rightarrow> start_call \<times> service" where
  "start_fails msg s =
     (Start_returned (Inl (Exn ServiceStartupError (''Failed to start service '' @ name s))),
      emit (service_error (name s) msg)
        (log_line Err ''Service startup failed'' (record_error msg (set_state ERROR s))))"

definition call_doStart :: "service \<Rightarrow> start_call \<times> service" where
  "call_doStart s = (At_doStart, s\<lparr> invoked := invoked s @ [DoStart] \<rparr>)"

definition start_begin :: "start_impl \<Rightarrow> service \<Rightarrow> start_call \<times> service" where
  "start_begin impl s =
     (if state s = RUNNING then
        (Start_returned (Inr ()), log_line Warn ''Service already running'' s)
      else if state s = STARTING then
        (Start_returned
           (Inl (Exn ServiceStartupError (''Service '' @ name s @ '' is already starting''))), s)
      else
        (let s1 = set_state STARTING (log_line Info ''Starting service'' s) in
         case beforeStart impl of
           None \<Rightarrow> call_doStart s1
         | Some r \<Rightarrow> (At_beforeStart, s1\<lparr> invoked := invoked s1 @ [BeforeStart] \<rparr>)))"

fun start_resume :: "start_impl \<Rightarrow> start_call \<Rightarrow> service \<Rightarrow> start_call \<times> service" where
  "start_resume impl At_beforeStart s =
     (case beforeStart impl of
        Some (Reject msg) \<Rightarrow> start_fails msg s
      | _ \<Rightarrow> call_doStart s)"
| "start_resume impl At_doStart s =
     (case doStart impl of
        Within (Resolve u) \<Rightarrow>
          (case afterStart impl of
             None \<Rightarrow> start_succeeds s
           | Some r \<Rightarrow> (At_afterStart, s\<lparr> invoked := invoked s @ [AfterStart] \<rparr>))
      | Within (Reject msg) \<Rightarrow> start_fails msg s
      | Late \<Rightarrow> start_fails (''Service '' @ name s @ '' startup timeout'') s)"
| "start_resume impl At_afterStart s =
     (case afterStart impl of
        Some (Reject msg) \<Rightarrow> start_fails msg s
      | _ \<Rightarrow> start_succeeds s)"
| "start_resume impl (Start_returned r) s = (Start_returned r, s)"

text \<open>\<^verbatim>\<open>stop()\<close> in the same way.\<close>

definition stop_succeeds :: "service \<Rightarrow> stop_call \<times> service" where
  "stop_succeeds s =
     (Stop_returned (Inr ()),
      log_line Info ''Service stopped successfully''
        (emit (service_stopped (name s)) (set_state STOPPED s)))"

definition stop_fails_with :: "string \<Rightarrow> service \<Rightarrow> stop_call \<times> service" where
  "stop_fails_with msg s =
     (Stop_returned (Inl (Exn ServiceShutdownError (''Failed to stop service '' @ name s))),
      log_line Err ''Service shutdown failed'' (record_error msg (set_state ERROR s)))"

definition call_doStop :: "service \<Rightarrow> stop_call \<times> service" where
  "call_doStop s = (At_doStop, s\<lparr> invoked := invoked s @ [DoStop] \<rparr>)"

definition stop_begin :: "stop_impl \<Rightarrow> service \<Rightarrow> stop_call \<times> service" where
  "stop_begin impl s =
     (if state s = STOPPED then
        (Stop_returned (Inr ()), log_line Warn ''Service already stopped'' s)
      else if state s = STOPPING then
        (Stop_returned
           (Inl (Exn ServiceShutdownError (''Service '' @ name s @ '' is already stopping''))), s)
      else
        (let s1 = stopHealthChecks (set_state STOPPING (log_line Info ''Stopping service'' s)) in
         case beforeStop impl of
           None \<Rightarrow> call_doStop s1
         | Some r \<Rightarrow> (At_beforeStop, s1\<lparr> invoked := invoked s1 @ [BeforeStop] \<rparr>)))"

fun stop_resume :: "stop_impl \<Rightarrow> stop_call \<Rightarrow> service \<Rightarrow> stop_call \<times> service" where
  "stop_resume impl At_beforeStop s =
     (case beforeStop impl of
        Some (Reject msg) \<Rightarrow> stop_fails_with msg s
      | _ \<Rightarrow> call_doStop s)"
| "stop_resume impl At_doStop s =
     (case doStop impl of
        Within (Resolve u) \<Rightarrow>
          (case afterStop impl of
             None \<Rightarrow> stop_succeeds s
           | Some r \<Rightarrow> (At_afterStop, s\<lparr> invoked := invoked s @ [AfterStop] \<rparr>))
      | Within (Reject msg) \<Rightarrow> stop_fails_with msg s
      | Late \<Rightarrow> stop_fails_with (''Service '' @ name s @ '' shutdown timeout'') s)"
| "stop_resume impl At_afterStop s =
     (case afterStop impl of
        Some (Reject msg) \<Rightarrow> stop_fails_with msg s
      | _ \<Rightarrow> stop_succeeds s)"
| "stop_resume impl (Stop_returned r) s = (Stop_returned r, s)"

text \<open>
  \<^verbatim>\<open>restart()\<close> logs and calls \<^verbatim>\<open>stop()\<close>, which runs to its first \<^verbatim>\<open>await\<close>. When the
  \<^verbatim>\<open>stop()\<close> has returned, \<^verbatim>\<open>restart()\<close> goes on to the delay or to its \<^verbatim>\<open>catch\<close>; after
  the delay it calls \<^verbatim>\<open>start()\<close>; when that has returned it counts the restart and
  emits the event, or throws.
\<close>

definition restart_begin :: "stop_impl \<Rightarrow> start_impl \<Rightarrow> service \<Rightarrow> restart_call \<times> service" where
  "restart_begin simpl timpl s =
     (case stop_begin simpl (log_line Info ''Restarting service'' s) of
        (at, s1) \<Rightarrow> (In_stop at, s1))"

fun restart_resume ::
  "stop_impl \<Rightarrow> start_impl \<Rightarrow> restart_call \<Rightarrow> service \<Rightarrow> restart_call \<times> service" where
  "restart_resume simpl timpl (In_stop (Stop_returned (Inl e))) s =
     (Restart_returned (Inl (Exn ServiceError (''Failed to restart service '' @ name s))), s)"
| "restart_resume simpl timpl (In_stop (Stop_returned (Inr u))) s = (In_delay, s)"
| "restart_resume simpl timpl (In_stop at) s =
     (case stop_resume simpl at s of (at', s') \<Rightarrow> (In_stop at', s'))"
| "restart_resume simpl timpl In_delay s =
     (case start_begin timpl s of (at, s') \<Rightarrow> (In_start at, s'))"
| "restart_resume simpl timpl (In_start (Start_returned (Inl e))) s =
     (Restart_returned (Inl (Exn ServiceError (''Failed to restart service '' @ name s))), s)"
| "restart_resume simpl timpl (In_start (Start_returned (Inr u))) s =
     (Restart_returned (Inr ()),
      emit (service_restarted (name s))
        (s\<lparr> metrics := (metrics s)\<lparr> restartCount := Suc (restartCount (metrics s)) \<rparr> \<rparr>))"
| "restart_resume simpl timpl (In_start at) s =
     (case start_resume timpl at s of (at', s') \<Rightarrow> (In_start at', s'))"
| "restart_resume simpl timpl (Restart_returned r) s = (Restart_returned r, s)"

text \<open>
  The timer callback. \<open>In_healthCheck asked\<close> is the callback awaiting
  \<^verbatim>\<open>healthCheck()\<close>, \<open>asked\<close> saying whether that has called \<^verbatim>\<open>doHealthCheck\<close>. The guard
  on the restart count and the call of \<^verbatim>\<open>restart()\<close> stand between the same two awaits.
\<close>

definition callback_begin :: "service \<Rightarrow> callback_call \<times> service" where
  "callback_begin s =
     (if state s \<noteq> RUNNING then (In_healthCheck False, s)
      else (In_healthCheck True, s\<lparr> invoked := invoked s @ [DoHealthCheck] \<rparr>))"

fun callback_resume ::
  "bool outcome \<Rightarrow> stop_impl \<Rightarrow> start_impl \<Rightarrow> callback_call \<Rightarrow> service
     \<Rightarrow> callback_call \<times> service" where
  "callback_resume h simpl timpl (In_healthCheck asked) s =
     (case (if asked then
              (case h of
                 Resolve healthy \<Rightarrow> (healthy, s)
               | Reject msg \<Rightarrow> (False, log_line Err ''Health check failed'' s))
            else (False, s)) of
        (healthy, s1) \<Rightarrow>
          (if \<not> healthy \<and> enableAutoRestart (config s1) then
             (if int (restartCount (metrics s1)) < maxRestartAttempts (config s1) then
                (case restart_begin simpl timpl
                        (log_line Warn ''Service unhealthy, attempting restart'' s1) of
                   (at, s2) \<Rightarrow> (In_restart at, s2))
              else
                (Callback_returned,
                 emit (service_failed (name s1) ''restart_limit_exceeded'')
                   (set_state ERROR
                     (log_line Err ''Service restart limit exceeded''
                       (log_line Warn ''Service unhealthy, attempting restart'' s1)))))
           else (Callback_returned, s1)))"
| "callback_resume h simpl timpl (In_restart (Restart_returned (Inl e))) s =
     (Callback_returned, log_line Err ''Health check error'' s)"
| "callback_resume h simpl timpl (In_restart (Restart_returned (Inr u))) s =
     (Callback_returned, s)"
| "callback_resume h simpl timpl (In_restart at) s =
     (case restart_resume simpl timpl at s of (at', s') \<Rightarrow> (In_restart at', s'))"
| "callback_resume h simpl timpl Callback_returned s = (Callback_returned, s)"

text \<open>
  A call on a service, with what the subclass does during it; a timer firing is the
  call of the callback, and happens only while an interval is live. A task is a call
  in progress. A service with its tasks goes on by one action at a time: a new call
  begins and runs to its first \<^verbatim>\<open>await\<close>, or the task at some position of the list
  goes on from its \<^verbatim>\<open>await\<close> to the next. \<open>run_actions\<close> takes a list of actions, any list: the
  calls come from outside, and which waiting task goes on first depends on what each
  waits for.
\<close>

datatype call =
  Call_start start_impl | Call_stop stop_impl | Call_restart stop_impl start_impl
  | Timer_tick "bool outcome" stop_impl start_impl

datatype task =
  Start_task start_impl start_call | Stop_task stop_impl stop_call
  | Restart_task stop_impl start_impl restart_call
  | Callback_task "bool outcome" stop_impl start_impl callback_call

fun call_begin :: "call \<Rightarrow> service \<Rightarrow> task \<times> service" where
  "call_begin (Call_start impl) s =
     (case start_begin impl s of (at, s') \<Rightarrow> (Start_task impl at, s'))"
| "call_begin (Call_stop impl) s =
     (case stop_begin impl s of (at, s') \<Rightarrow> (Stop_task impl at, s'))"
| "call_begin (Call_restart simpl timpl) s =
     (case restart_begin simpl timpl s of (at, s') \<Rightarrow> (Restart_task simpl timpl at, s'))"
| "call_begin (Timer_tick h simpl timpl) s =
     (case callback_begin s of (at, s') \<Rightarrow> (Callback_task h simpl timpl at, s'))"

fun resume :: "task \<Rightarrow> service \<Rightarrow> task \<times> service" where
  "resume (Start_task impl at) s =
     (case start_resume impl at s of (at', s') \<Rightarrow> (Start_task impl at', s'))"
| "resume (Stop_task impl at) s =
     (case stop_resume impl at s of (at', s') \<Rightarrow> (Stop_task impl at', s'))"
| "resume (Restart_task simpl timpl at) s =
     (case restart_resume simpl timpl at s of (at', s') \<Rightarrow> (Restart_task simpl timpl at', s'))"
| "resume (Callback_task h simpl timpl at) s =
     (case callback_resume h simpl timpl at s of
        (at', s') \<Rightarrow> (Callback_task h simpl timpl at', s'))"

fun can_begin :: "call \<Rightarrow> service \<Rightarrow> bool" where
  "can_begin (Timer_tick h simpl timpl) s = (0 < live_timers s)"
| "can_begin c s = True"

datatype action = Begin call | Resume nat

fun step :: "action \<Rightarrow> service \<times> task list \<Rightarrow> service \<times> task list" where
  "step (Begin c) (s, ts) =
     (if can_begin c s then (case call_begin c s of (t, s') \<Rightarrow> (s', ts @ [t])) else (s, ts))"
| "step (Resume i) (s, ts) =
     (if i < length ts then (case resume (ts ! i) s of (t, s') \<Rightarrow> (s', ts[i := t]))
      else (s, ts))"

definition run_actions :: "action list \<Rightarrow> service \<times> task list \<Rightarrow> service \<times> task list" where
  "run_actions acts c = foldl (\<lambda>c a. step a c) c acts"

text \<open>
  A task taken to its return with nothing in between. The number of awaits that a
  task has before it is bounded, so this ends.
\<close>

fun returned :: "task \<Rightarrow> bool" where
  "returned (Start_task impl (Start_returned r)) = True"
| "returned (Stop_task impl (Stop_returned r)) = True"
| "returned (Restart_task simpl timpl (Restart_returned r)) = True"
| "returned (Callback_task h simpl timpl Callback_returned) = True"
| "returned t = False"

fun awaits_start :: "start_call \<Rightarrow> nat" where
  "awaits_start At_beforeStart = 3"
| "awaits_start At_doStart = 2"
| "awaits_start At_afterStart = 1"
| "awaits_start (Start_returned r) = 0"

fun awaits_stop :: "stop_call \<Rightarrow> nat" where
  "awaits_stop At_beforeStop = 3"
| "awaits_stop At_doStop = 2"
| "awaits_stop At_afterStop = 1"
| "awaits_stop (Stop_returned r) = 0"

fun awaits_restart :: "restart_call \<Rightarrow> nat" where
  "awaits_restart (In_stop at) = awaits_stop at + 7"
| "awaits_restart In_delay = 6"
| "awaits_restart (In_start at) = awaits_start at + 1"
| "awaits_restart (Restart_returned r) = 0"

fun awaits_callback :: "callback_call \<Rightarrow> nat" where
  "awaits_callback (In_healthCheck asked) = 12"
| "awaits_callback (In_restart at) = awaits_restart at + 1"
| "awaits_callback Callback_returned = 0"

fun awaits :: "task \<Rightarrow> nat" where
  "awaits (Start_task impl at) = awaits_start at"
| "awaits (Stop_task impl at) = awaits_stop at"
| "awaits (Restart_task simpl timpl at) = awaits_restart at"
| "awaits (Callback_task h simpl timpl at) = awaits_callback at"

function complete :: "task \<Rightarrow> service \<Rightarrow> task \<times> service" where
  "complete t s =
     (if returned t then (t, s) else (case resume t s of (t', s') \<Rightarrow> complete t' s'))"
  by pat_completeness auto
termination
proof -
  have a: "awaits_start (fst (start_resume impl at u)) < awaits_start at \<or> (\<exists>r. at = Start_returned r)"
    for impl at u
    by (cases at)
       (auto simp: start_fails_def start_succeeds_def call_doStart_def
          split: option.splits outcome.splits raced.splits)
  have b: "awaits_stop (fst (stop_resume impl at u)) < awaits_stop at \<or> (\<exists>r. at = Stop_returned r)"
    for impl at u
    by (cases at)
       (auto simp: stop_fails_with_def stop_succeeds_def call_doStop_def
          split: option.splits outcome.splits raced.splits)
  have a3: "awaits_start at \<le> 3" for at by (cases at) auto
  have c: "awaits_restart (fst (restart_resume simpl timpl at u)) < awaits_restart at
           \<or> (\<exists>r. at = Restart_returned r)" for simpl timpl at u
  proof (cases at)
    case (In_stop p)
    show ?thesis
    proof (cases "\<exists>r. p = Stop_returned r")
      case True
      then obtain r where "p = Stop_returned r" by blast
      then show ?thesis using In_stop by (cases r) auto
    next
      case False
      then show ?thesis using In_stop b[of simpl p u]
        by (cases p; cases "stop_resume simpl p u") auto
    qed
  next
    case In_delay
    then show ?thesis using a3[of "fst (start_begin timpl u)"]
      by (cases "start_begin timpl u") auto
  next
    case (In_start p)
    show ?thesis
    proof (cases "\<exists>r. p = Start_returned r")
      case True
      then obtain r where "p = Start_returned r" by blast
      then show ?thesis using In_start by (cases r) auto
    next
      case False
      then show ?thesis using In_start a[of timpl p u]
        by (cases p; cases "start_resume timpl p u") auto
    qed
  next
    case (Restart_returned r)
    then show ?thesis by simp
  qed
  have b3: "awaits_stop at \<le> 3" for at by (cases at) auto
  have d: "awaits_callback (fst (callback_resume h simpl timpl at u)) < awaits_callback at
           \<or> at = Callback_returned" for h simpl timpl at u
  proof (cases at)
    case (In_healthCheck asked)
    have r10: "awaits_restart x < 11" if "restart_begin simpl timpl v = (x, y)" for v x y
      using that b3[of "fst (stop_begin simpl (log_line Info ''Restarting service'' v))"]
      by (cases "stop_begin simpl (log_line Info ''Restarting service'' v)")
         (auto simp: restart_begin_def)
    show ?thesis using In_healthCheck
      by (auto split: prod.splits outcome.splits if_splits dest: r10)
  next
    case (In_restart p)
    show ?thesis
    proof (cases "\<exists>r. p = Restart_returned r")
      case True
      then obtain r where "p = Restart_returned r" by blast
      then show ?thesis using In_restart by (cases r) auto
    next
      case False
      then show ?thesis using In_restart c[of simpl timpl p u]
        by (cases p; cases "restart_resume simpl timpl p u") auto
    qed
  next
    case Callback_returned
    then show ?thesis by simp
  qed
  have e: "awaits (fst (resume t s)) < awaits t" if go: "\<not> returned t" for t s
  proof (cases t)
    case (Start_task impl at)
    then show ?thesis using go a[of impl at s]
      by (cases at; cases "start_resume impl at s") auto
  next
    case (Stop_task impl at)
    then show ?thesis using go b[of impl at s]
      by (cases at; cases "stop_resume impl at s") auto
  next
    case (Restart_task simpl timpl at)
    then show ?thesis using go c[of simpl timpl at s]
      by (cases at; cases "restart_resume simpl timpl at s") auto
  next
    case (Callback_task h simpl timpl at)
    then show ?thesis using go d[of h simpl timpl at s]
      by (cases at; cases "callback_resume h simpl timpl at s") auto
  qed
  show ?thesis
    by (relation "measure (\<lambda>(t, s). awaits t)") (auto simp: case_prod_beta e)
qed

text \<open>
  The calls of a caller who awaits each before the next, on a service with no task
  waiting: each is a function of the section before.
\<close>

fun whole :: "call \<Rightarrow> service \<Rightarrow> service" where
  "whole (Call_start impl) s = snd (start impl s)"
| "whole (Call_stop impl) s = snd (stop impl s)"
| "whole (Call_restart simpl timpl) s = snd (restart simpl timpl s)"
| "whole (Timer_tick h simpl timpl) s = timer_fires h simpl timpl s"

definition service_after :: "call list \<Rightarrow> service \<Rightarrow> service" where
  "service_after cs s = foldl (\<lambda>s c. whole c s) s cs"

section \<open>JavaScript containers\<close>

text \<open>
  A \<^verbatim>\<open>Map\<close> is an association list in insertion order with distinct keys: \<^verbatim>\<open>set\<close> on
  a key that is present replaces the value where it stands, on a new key it appends.
  A \<^verbatim>\<open>Set\<close> of strings that is iterated is a list without repetitions in insertion
  order; \<open>Set_of\<close> is \<^verbatim>\<open>new Set(array)\<close>, which keeps the first occurrence of each element.
\<close>

fun Map_set :: "'k \<Rightarrow> 'v \<Rightarrow> ('k \<times> 'v) list \<Rightarrow> ('k \<times> 'v) list" where
  "Map_set k v [] = [(k, v)]"
| "Map_set k v (p # ps) = (if fst p = k then (k, v) # ps else p # Map_set k v ps)"

definition Map_delete :: "'k \<Rightarrow> ('k \<times> 'v) list \<Rightarrow> ('k \<times> 'v) list" where
  "Map_delete k ps = filter (\<lambda>p. fst p \<noteq> k) ps"

definition Map_keys :: "('k \<times> 'v) list \<Rightarrow> 'k list" where
  "Map_keys ps = map fst ps"

definition Set_add :: "'a \<Rightarrow> 'a list \<Rightarrow> 'a list" where
  "Set_add x xs = (if x \<in> set xs then xs else xs @ [x])"

definition Set_delete :: "'a \<Rightarrow> 'a list \<Rightarrow> 'a list" where
  "Set_delete x xs = filter (\<lambda>y. y \<noteq> x) xs"

definition Set_of :: "'a list \<Rightarrow> 'a list" where
  "Set_of xs = foldl (\<lambda>acc x. Set_add x acc) [] xs"

text \<open>\<^verbatim>\<open>Array.prototype.indexOf\<close>: the first position, or \<open>-1\<close>.\<close>

fun indexOf :: "'a list \<Rightarrow> 'a \<Rightarrow> int" where
  "indexOf [] x = -1"
| "indexOf (y # ys) x =
     (if y = x then 0 else (let i = indexOf ys x in if i < 0 then -1 else i + 1))"

text \<open>\<^verbatim>\<open>Array.prototype.join\<close>.\<close>

fun join :: "string \<Rightarrow> string list \<Rightarrow> string" where
  "join sep [] = []"
| "join sep [x] = x"
| "join sep (x # y # zs) = x @ sep @ join sep (y # zs)"

section \<open>Dependency graph resolver\<close>

text \<open>
  \<^verbatim>\<open>BackendServiceManager.calculateOrder\<close> and
  \<^verbatim>\<open>BackendInitializer.calculateInitializationOrder\<close> contain the same closure
  \<^verbatim>\<open>visit\<close>: a depth-first visit over three local variables, the sets \<^verbatim>\<open>visited\<close> and
  \<^verbatim>\<open>visiting\<close> and the array \<^verbatim>\<open>order\<close>. The two copies differ in where the registered
  names and the dependencies of a name come from and in the class of the error they
  throw, so \<open>visit\<close> takes the keys of the registry, the function from a name to its
  dependencies and the function from a name to the error. \<open>visit_deps\<close> is the
  \<^verbatim>\<open>for\<close> loop over the dependencies: a dependency that is not registered is skipped.
\<close>

record dfs =
  visited :: "string set"
  visiting :: "string set"
  order :: "string list"

function visit ::
    "string list \<Rightarrow> (string \<Rightarrow> string list) \<Rightarrow> (string \<Rightarrow> error) \<Rightarrow> string \<Rightarrow> dfs \<Rightarrow> error + dfs"
  and visit_deps ::
    "string list \<Rightarrow> (string \<Rightarrow> string list) \<Rightarrow> (string \<Rightarrow> error) \<Rightarrow> string list \<Rightarrow> dfs \<Rightarrow> error + dfs"
where
  "visit keys deps mk n st =
     (if n \<in> visiting st then Inl (mk n)
      else if n \<in> visited st then Inr st
      else
        (case visit_deps keys deps mk (deps n) (st\<lparr> visiting := insert n (visiting st) \<rparr>) of
           Inl e \<Rightarrow> Inl e
         | Inr st' \<Rightarrow>
             Inr (st'\<lparr> visiting := visiting st' - {n}, visited := insert n (visited st'),
                       order := order st' @ [n] \<rparr>)))"
| "visit_deps keys deps mk [] st = Inr st"
| "visit_deps keys deps mk (d # ds) st =
     (if d \<in> set keys then
        (case visit keys deps mk d st of
           Inl e \<Rightarrow> Inl e
         | Inr st' \<Rightarrow> visit_deps keys deps mk ds st')
      else visit_deps keys deps mk ds st)"
  by pat_completeness auto

text \<open>
  The recursion ends because every call of \<open>visit\<close> that recurses puts a registered
  name into \<open>visiting\<close> that was not there, and a call that returns leaves \<open>visiting\<close>
  as it found it.
\<close>

termination
proof -
  have same:
    "visit_visit_deps_dom (Inl (keys, deps, mk, n, st)) \<Longrightarrow>
       (\<And>st'. visit keys deps mk n st = Inr st' \<Longrightarrow> visiting st' = visiting st)"
    "visit_visit_deps_dom (Inr (keys, deps, mk, ds, st)) \<Longrightarrow>
       (\<And>st'. visit_deps keys deps mk ds st = Inr st' \<Longrightarrow> visiting st' = visiting st)"
    for keys deps mk n ds st
  proof (induct keys deps mk n st and keys deps mk ds st rule: visit_visit_deps.pinduct)
    case (1 keys deps mk n st)
    show ?case
    proof (cases "n \<in> visiting st \<or> n \<in> visited st")
      case True
      then show ?thesis using 1(1) 1(3) by (simp add: visit.psimps split: if_splits)
    next
      case False
      then obtain st2 where
        r: "visit_deps keys deps mk (deps n) (st\<lparr> visiting := insert n (visiting st) \<rparr>) = Inr st2"
        and e: "st' = st2\<lparr> visiting := visiting st2 - {n}, visited := insert n (visited st2),
                            order := order st2 @ [n] \<rparr>"
        using 1(1) 1(3) by (simp add: visit.psimps split: sum.splits)
      have "visiting st2 = insert n (visiting st)" using 1(2)[OF _ _ r] False by simp
      then show ?thesis using e False by auto
    qed
  next
    case (2 keys deps mk st)
    then show ?case by (simp add: visit_deps.psimps)
  next
    case (3 keys deps mk d ds st)
    show ?case
    proof (cases "d \<in> set keys")
      case True
      then obtain st2 where r: "visit keys deps mk d st = Inr st2"
        and r2: "visit_deps keys deps mk ds st2 = Inr st'"
        using 3(1) 3(5) by (simp add: visit_deps.psimps split: sum.splits)
      show ?thesis using 3(2)[OF True r] 3(3)[OF True r r2] by simp
    next
      case False
      then show ?thesis using 3(1) 3(5) 3(4) by (simp add: visit_deps.psimps)
    qed
  qed
  show ?thesis
  proof (relation "measures
      [\<lambda>x. case x of
              Inl (keys, deps, mk, n, st) \<Rightarrow>
                (if n \<in> visiting st then 0
                 else 2 * card (set keys - insert n (visiting st)) + 3)
            | Inr (keys, deps, mk, ds, st) \<Rightarrow> 2 * card (set keys - visiting st) + 2,
       \<lambda>x. case x of Inl _ \<Rightarrow> 0 | Inr (keys, deps, mk, ds, st) \<Rightarrow> length ds]", goal_cases)
    case 1
    show ?case by simp
  next
    case 2
    then show ?case by simp
  next
    case (3 d keys deps mk ds st)
    have "card (set d - insert mk (visiting st)) < card (set d - visiting st)"
      if "mk \<notin> visiting st"
      using that 3 by (intro psubset_card_mono) auto
    then show ?case by auto
  next
    case (4 d keys deps mk ds st st')
    then show ?case using same(1)[OF 4(3) 4(2)] by simp
  next
    case 5
    then show ?case by simp
  qed
qed

declare visit.simps [simp del] visit_deps.simps [simp del]

text \<open>
  The loop \<^verbatim>\<open>for (const name of keys) if (!visited.has(name)) visit(name)\<close>, and the whole
  computation from the empty sets: the order, or the error of the first failing visit.
\<close>

fun visit_all ::
  "string list \<Rightarrow> (string \<Rightarrow> string list) \<Rightarrow> (string \<Rightarrow> error) \<Rightarrow> string list \<Rightarrow> dfs \<Rightarrow> error + dfs" where
  "visit_all keys deps mk [] st = Inr st"
| "visit_all keys deps mk (n # ns) st =
     (if n \<notin> visited st then
        (case visit keys deps mk n st of
           Inl e \<Rightarrow> Inl e
         | Inr st' \<Rightarrow> visit_all keys deps mk ns st')
      else visit_all keys deps mk ns st)"

definition topological_order ::
  "string list \<Rightarrow> (string \<Rightarrow> string list) \<Rightarrow> (string \<Rightarrow> error) \<Rightarrow> error + string list" where
  "topological_order keys deps mk =
     (case visit_all keys deps mk keys \<lparr> visited = {}, visiting = {}, order = [] \<rparr> of
        Inl e \<Rightarrow> Inl e
      | Inr st \<Rightarrow> Inr (order st))"

section \<open>What a dependency order is\<close>

text \<open>
  The vocabulary of the claims about orders. \<open>position xs a\<close> is the index of the first
  \<open>a\<close> in \<open>xs\<close>, and \<open>precedes xs a b\<close> says that both occur and \<open>a\<close> comes first.
  \<open>dep_edges\<close> is the dependency graph restricted to registered names: an edge from a
  name to each registered name it declares as a dependency. The graph is \<open>cyclic\<close> when
  some name reaches itself along one or more edges.
\<close>

definition position :: "'a list \<Rightarrow> 'a \<Rightarrow> nat" where
  "position xs a = length (takeWhile (\<lambda>x. x \<noteq> a) xs)"

definition precedes :: "'a list \<Rightarrow> 'a \<Rightarrow> 'a \<Rightarrow> bool" where
  "precedes xs a b \<longleftrightarrow> a \<in> set xs \<and> b \<in> set xs \<and> position xs a < position xs b"

definition dep_edges :: "string list \<Rightarrow> (string \<Rightarrow> string list) \<Rightarrow> (string \<times> string) set" where
  "dep_edges keys deps = {(a, b). a \<in> set keys \<and> b \<in> set keys \<and> b \<in> set (deps a)}"

definition cyclic :: "string list \<Rightarrow> (string \<Rightarrow> string list) \<Rightarrow> bool" where
  "cyclic keys deps \<longleftrightarrow> (\<exists>x. (x, x) \<in> (dep_edges keys deps)\<^sup>+)"

text \<open>
  An order puts the dependencies first when it lists every registered name once and
  every dependency before each name that declares it. It keeps the registration order
  when a name \<open>m\<close> stands before a name \<open>n\<close> only if \<open>m\<close> is, or is reachable along
  dependencies from, a name registered no later than \<open>n\<close>.
\<close>

definition dependencies_first :: "string list \<Rightarrow> (string \<Rightarrow> string list) \<Rightarrow> string list \<Rightarrow> bool" where
  "dependencies_first keys deps xs \<longleftrightarrow>
     distinct xs \<and> set xs = set keys \<and>
     (\<forall>(a, b) \<in> dep_edges keys deps. precedes xs b a)"

definition registration_order_kept ::
  "string list \<Rightarrow> (string \<Rightarrow> string list) \<Rightarrow> string list \<Rightarrow> bool" where
  "registration_order_kept keys deps xs \<longleftrightarrow>
     (\<forall>m n. precedes xs m n \<longrightarrow>
        (\<exists>r \<in> set keys. position keys r \<le> position keys n \<and> (r, m) \<in> (dep_edges keys deps)\<^sup>*))"

text \<open>
  Two relations used in the proofs: a later state of the visit extends an earlier one
  by appending names that were neither visited nor being visited, and an order in
  which every listed name stands after its registered dependencies.
\<close>

definition extends :: "dfs \<Rightarrow> dfs \<Rightarrow> bool" where
  "extends st st' \<longleftrightarrow>
     visiting st' = visiting st \<and>
     (\<exists>zs. order st' = order st @ zs \<and> visited st' = visited st \<union> set zs
          \<and> set zs \<inter> (visiting st \<union> visited st) = {} \<and> distinct zs)"

definition deps_first :: "string list \<Rightarrow> (string \<Rightarrow> string list) \<Rightarrow> string list \<Rightarrow> bool" where
  "deps_first keys deps xs \<longleftrightarrow>
     (\<forall>x \<in> set xs. \<forall>d \<in> set (deps x). d \<in> set keys \<longrightarrow> precedes xs d x)"

section \<open>Service manager: \<^verbatim>\<open>BackendServiceManager\<close>\<close>

text \<open>
  The registry, the dependency graph (a \<^verbatim>\<open>Map\<close> from a name to the \<^verbatim>\<open>Set\<close> of its
  dependencies) and the two orders. \<open>manager_eventBus\<close> is the address of the manager's
  bus. \<open>mlogged\<close> holds the lines that the manager writes to its logger, those of its
  event handlers included, and \<open>called\<close> observes, in order, every \<^verbatim>\<open>start()\<close> and
  \<^verbatim>\<open>stop()\<close> the manager calls on a service.
\<close>

datatype manager_call = called_start string | called_stop string

record manager =
  services :: "(string \<times> service) list"
  dependencyGraph :: "(string \<times> string list) list"
  startOrder :: "string list"
  stopOrder :: "string list"
  manager_eventBus :: nat
  mlogged :: "log_entry list"
  called :: "manager_call list"

definition new_manager :: manager where
  "new_manager =
     \<lparr> services = [], dependencyGraph = [], startOrder = [], stopOrder = [],
       manager_eventBus = 0, mlogged = [], called = [] \<rparr>"

definition mlog :: "LogLevel \<Rightarrow> string \<Rightarrow> string \<Rightarrow> manager \<Rightarrow> manager" where
  "mlog l msg subject m = m\<lparr> mlogged := mlogged m @ [(l, msg, subject)] \<rparr>"

text \<open>
  \<^verbatim>\<open>setupEventHandlers\<close>, which the constructor calls: the manager's two handlers, as
  what they do with one event of its bus. The payload that they log is the event's, so
  the line is about the service that the event names. An event reaches the handlers
  when it is emitted on the manager's bus, and \<^verbatim>\<open>emit\<close> runs them before it returns:
  \<open>deliver before after m\<close> hands the manager \<open>m\<close> the events that a call on a service
  emitted, the service being \<open>before\<close> at the call and \<open>after\<close> at its return.
\<close>

fun setupEventHandlers :: "ServiceEvent \<Rightarrow> manager \<Rightarrow> manager" where
  "setupEventHandlers (service_error n msg) m = mlog Warn ''Service error event received'' n m"
| "setupEventHandlers (service_failed n reason) m =
     mlog Err ''Service failed event received'' n m"
| "setupEventHandlers (service_started n) m = m"
| "setupEventHandlers (service_stopped n) m = m"
| "setupEventHandlers (service_restarted n) m = m"

definition deliver :: "service \<Rightarrow> service \<Rightarrow> manager \<Rightarrow> manager" where
  "deliver before after m =
     (if eventBus after = manager_eventBus m then
        foldl (\<lambda>m e. setupEventHandlers e m) m (drop (length (events before)) (events after))
      else m)"

definition graph_deps :: "(string \<times> string list) list \<Rightarrow> string \<Rightarrow> string list" where
  "graph_deps g n = (case map_of g n of None \<Rightarrow> [] | Some ds \<Rightarrow> ds)"

definition circular_ServiceError :: "string \<Rightarrow> error" where
  "circular_ServiceError n = Exn ServiceError (''Circular dependency detected involving '' @ n)"

definition calculateOrder :: "manager \<Rightarrow> (error + unit) \<times> manager" where
  "calculateOrder m =
     (case topological_order (Map_keys (services m)) (graph_deps (dependencyGraph m))
             circular_ServiceError of
        Inl e \<Rightarrow> (Inl e, m)
      | Inr ord \<Rightarrow> (Inr (), m\<lparr> startOrder := ord, stopOrder := rev ord \<rparr>))"

definition updateDependencyGraph :: "service \<Rightarrow> manager \<Rightarrow> manager" where
  "updateDependencyGraph svc m =
     m\<lparr> dependencyGraph := Map_set (name svc) (Set_of (dependencies svc)) (dependencyGraph m) \<rparr>"

definition registerService :: "service \<Rightarrow> manager \<Rightarrow> (error + unit) \<times> manager" where
  "registerService svc m =
     (case calculateOrder
             (updateDependencyGraph svc (m\<lparr> services := Map_set (name svc) svc (services m) \<rparr>)) of
        (Inl e, m1) \<Rightarrow> (Inl e, m1)
      | (Inr _, m1) \<Rightarrow> (Inr (), mlog Info ''Service registered'' (name svc) m1))"

definition unregisterService :: "string \<Rightarrow> manager \<Rightarrow> (error + unit) \<times> manager" where
  "unregisterService n m =
     (case map_of (services m) n of
        None \<Rightarrow> (Inl (Exn ServiceError (''Service not found: '' @ n)), m)
      | Some svc \<Rightarrow>
          (if state svc = RUNNING then
             (Inl (Exn ServiceError (''Cannot unregister running service: '' @ n)), m)
           else
             (case calculateOrder
                     (m\<lparr> services := Map_delete n (services m),
                         dependencyGraph := Map_delete n (dependencyGraph m) \<rparr>) of
                (Inl e, m1) \<Rightarrow> (Inl e, m1)
              | (Inr _, m1) \<Rightarrow> (Inr (), mlog Info ''Service unregistered'' n m1))))"

text \<open>
  What the services registered under each name do when they are started and stopped is
  given from outside, by name. \<open>stop_service\<close> is the \<^verbatim>\<open>try\<close>/\<^verbatim>\<open>catch\<close> around
  \<^verbatim>\<open>service.stop()\<close> that \<^verbatim>\<open>stopAll\<close> and \<^verbatim>\<open>stopStartedServices\<close> share but for the
  message: a failure is logged and not thrown again. The manager awaits each call
  before it goes on. What a call emits on the manager's bus reaches the manager's
  handlers during the call, before the line of the \<^verbatim>\<open>catch\<close>.
\<close>

definition stop_service ::
  "(string \<Rightarrow> stop_impl) \<Rightarrow> string \<Rightarrow> string \<Rightarrow> service \<Rightarrow> manager \<Rightarrow> manager" where
  "stop_service simpl msg n svc m =
     (case stop (simpl n) svc of
        (Inr _, svc') \<Rightarrow>
          deliver svc svc'
            (m\<lparr> services := Map_set n svc' (services m),
                called := called m @ [called_stop n] \<rparr>)
      | (Inl e, svc') \<Rightarrow>
          mlog Err msg n
            (deliver svc svc'
              (m\<lparr> services := Map_set n svc' (services m),
                  called := called m @ [called_stop n] \<rparr>)))"

fun stop_running ::
  "(string \<Rightarrow> stop_impl) \<Rightarrow> string \<Rightarrow> string list \<Rightarrow> manager \<Rightarrow> manager" where
  "stop_running simpl msg [] m = m"
| "stop_running simpl msg (n # ns) m =
     (case map_of (services m) n of
        None \<Rightarrow> stop_running simpl msg ns m
      | Some svc \<Rightarrow>
          (if state svc = RUNNING then
             stop_running simpl msg ns (stop_service simpl msg n svc m)
           else stop_running simpl msg ns m))"

definition stopStartedServices :: "(string \<Rightarrow> stop_impl) \<Rightarrow> string \<Rightarrow> manager \<Rightarrow> manager" where
  "stopStartedServices simpl failedService m =
     (let failedIndex = indexOf (startOrder m) failedService in
      if failedIndex = -1 then m
      else stop_running simpl ''Failed to stop service during cleanup''
             (rev (take (nat failedIndex) (startOrder m))) m)"

fun startAll_loop ::
  "(string \<Rightarrow> start_impl) \<Rightarrow> (string \<Rightarrow> stop_impl) \<Rightarrow> string list \<Rightarrow> manager
     \<Rightarrow> (error + unit) \<times> manager" where
  "startAll_loop timpl simpl [] m = (Inr (), m)"
| "startAll_loop timpl simpl (n # ns) m =
     (case map_of (services m) n of
        None \<Rightarrow> startAll_loop timpl simpl ns m
      | Some svc \<Rightarrow>
          (case start (timpl n) svc of
             (Inr _, svc') \<Rightarrow>
               startAll_loop timpl simpl ns
                 (deliver svc svc'
                   (m\<lparr> services := Map_set n svc' (services m),
                       called := called m @ [called_start n] \<rparr>))
           | (Inl e, svc') \<Rightarrow>
               (let m1 = mlog Err ''Failed to start service'' n
                           (deliver svc svc'
                             (m\<lparr> services := Map_set n svc' (services m),
                                 called := called m @ [called_start n] \<rparr>))
                in if isRequired svc' then
                     (Inl (Exn ServiceError (''Required service '' @ n @ '' failed to start'')),
                      stopStartedServices simpl n m1)
                   else startAll_loop timpl simpl ns m1)))"

definition startAll ::
  "(string \<Rightarrow> start_impl) \<Rightarrow> (string \<Rightarrow> stop_impl) \<Rightarrow> manager \<Rightarrow> (error + unit) \<times> manager" where
  "startAll timpl simpl m =
     (case startAll_loop timpl simpl (startOrder m)
             (mlog Info ''Starting all services in dependency order...'' [] m) of
        (Inl e, m1) \<Rightarrow> (Inl e, m1)
      | (Inr _, m1) \<Rightarrow> (Inr (), mlog Info ''All services started successfully'' [] m1))"

definition stopAll :: "(string \<Rightarrow> stop_impl) \<Rightarrow> manager \<Rightarrow> manager" where
  "stopAll simpl m =
     mlog Info ''All services stopped'' []
       (stop_running simpl ''Failed to stop service'' (stopOrder m)
         (mlog Info ''Stopping all services in reverse dependency order...'' [] m))"

section \<open>Coordination service: \<^verbatim>\<open>CoordinationService\<close>\<close>

text \<open>
  \<^verbatim>\<open>CoordinationConfig\<close> with its numbers as integers; \<^verbatim>\<open>deadlockDetection\<close> is kept as
  an untyped JavaScript value, because \<^verbatim>\<open>beforeStart\<close> tests its \<^verbatim>\<open>typeof\<close>.
\<close>

datatype js_value = JSBoolean bool | JSNumber int | JSString string | JSUndefined | JSNull

fun typeof :: "js_value \<Rightarrow> string" where
  "typeof (JSBoolean _) = ''boolean''"
| "typeof (JSNumber _) = ''number''"
| "typeof (JSString _) = ''string''"
| "typeof JSUndefined = ''undefined''"
| "typeof JSNull = ''object''"

record CoordinationConfig =
  maxRetries :: int
  retryDelay :: int
  deadlockDetection :: js_value
  resourceTimeout :: int
  messageTimeout :: int

text \<open>
  The hook \<^verbatim>\<open>beforeStart\<close> of the coordination service: the lines it logs and how it
  settles. More than 100 retries is the only finding that is a warning.
\<close>

definition CoordinationService_beforeStart ::
  "CoordinationConfig \<Rightarrow> log_entry list \<times> unit outcome" where
  "CoordinationService_beforeStart cc =
     (let l0 = [(Info, ''Verifying coordination manager configuration...'', ''coordinationManager'')] in
      if maxRetries cc < 0 then (l0, Reject ''Max retries cannot be negative'')
      else
        (let l1 = (if maxRetries cc > 100
                   then l0 @ [(Warn, ''High max retries may cause performance issues'',
                               ''coordinationManager'')]
                   else l0) in
         if retryDelay cc \<le> 0 then (l1, Reject ''Retry delay must be greater than 0'')
         else if resourceTimeout cc \<le> 0 then
           (l1, Reject ''Resource timeout must be greater than 0'')
         else if messageTimeout cc \<le> 0 then
           (l1, Reject ''Message timeout must be greater than 0'')
         else if typeof (deadlockDetection cc) \<noteq> ''boolean'' then
           (l1, Reject ''Deadlock detection must be a boolean value'')
         else
           (l1 @ [(Info, ''Coordination manager configuration verified'',
                   ''coordinationManager'')],
            Resolve ())))"

text \<open>
  The service as its constructor builds it, and its \<^verbatim>\<open>start()\<close>: the inherited
  \<^verbatim>\<open>start()\<close> with the hook above as \<^verbatim>\<open>beforeStart\<close>. \<^verbatim>\<open>afterStart\<close> emits an event and
  logs a line, so it resolves; \<^verbatim>\<open>doStart\<close> runs the coordination manager, which is not
  part of these files, and stays a parameter.
\<close>

definition CoordinationService :: "ServiceConfig \<Rightarrow> service" where
  "CoordinationService cfg = new_service ''coordinationManager'' [''logger'', ''eventBus''] True cfg"

definition CoordinationService_impl :: "CoordinationConfig \<Rightarrow> raced \<Rightarrow> start_impl" where
  "CoordinationService_impl cc run =
     \<lparr> beforeStart = Some (snd (CoordinationService_beforeStart cc)), doStart = run,
       afterStart = Some (Resolve ()) \<rparr>"

section \<open>Component initializer: \<^verbatim>\<open>BackendInitializer\<close>\<close>

record component =
  comp_name :: string
  comp_isRequired :: bool
  comp_dependencies :: "string list option"

record BackendInitializationResult =
  success :: bool
  res_initializedComponents :: "string list"
  failedComponents :: "(string \<times> string \<times> bool) list"
  healthStatus :: "(string \<times> bool \<times> string option) list"

text \<open>
  The fields of the class. \<open>circuitBreakers\<close> holds the names that have a breaker.
  \<open>emitted\<close> observes the topics put on the event bus and \<open>shutdown_calls\<close> the
  components whose \<^verbatim>\<open>shutdown()\<close> was called, in order.
\<close>

record initializer =
  components :: "(string \<times> component) list"
  initializedComponents :: "string list"
  initializationOrder :: "string list"
  circuitBreakers :: "string list"
  initialized :: bool
  shutdownInProgress :: bool
  emitted :: "string list"
  shutdown_calls :: "string list"

definition componentTypes :: "string list" where
  "componentTypes =
     [''logger'', ''config'', ''eventBus'', ''orchestrator'', ''terminalManager'',
      ''memoryManager'', ''coordinationManager'', ''mcpServer'', ''database'', ''cache'',
      ''messageQueue'']"

definition new_initializer :: initializer where
  "new_initializer =
     \<lparr> components = [], initializedComponents = [], initializationOrder = [],
       circuitBreakers = componentTypes, initialized = False, shutdownInProgress = False,
       emitted = [], shutdown_calls = [] \<rparr>"

definition registerComponent :: "component \<Rightarrow> initializer \<Rightarrow> initializer" where
  "registerComponent c bi = bi\<lparr> components := Map_set (comp_name c) c (components bi) \<rparr>"

text \<open>
  What the components do is given from outside, by name: \<open>init_run\<close> is how
  \<^verbatim>\<open>circuitBreaker.execute\<close> around the retried \<^verbatim>\<open>component.initialize()\<close> settles (the
  breaker and \<^verbatim>\<open>retry\<close> live in \<^verbatim>\<open>utils/helpers.js\<close>), \<open>shutdown_run\<close> how
  \<^verbatim>\<open>component.shutdown()\<close> does against the 30 second timer, \<open>health_run\<close> what
  \<^verbatim>\<open>getHealthStatus()\<close> gives.
\<close>

record component_env =
  init_run :: "string \<Rightarrow> unit outcome"
  shutdown_run :: "string \<Rightarrow> raced"
  health_run :: "string \<Rightarrow> (bool \<times> string option) outcome"

definition component_deps :: "(string \<times> component) list \<Rightarrow> string \<Rightarrow> string list" where
  "component_deps cs n =
     (case map_of cs n of
        None \<Rightarrow> []
      | Some c \<Rightarrow> (case comp_dependencies c of None \<Rightarrow> [] | Some ds \<Rightarrow> ds))"

definition circular_InitializationError :: "string \<Rightarrow> error" where
  "circular_InitializationError n =
     Exn InitializationError (''Circular dependency detected involving '' @ n)"

definition calculateInitializationOrder :: "initializer \<Rightarrow> error + string list" where
  "calculateInitializationOrder bi =
     topological_order (Map_keys (components bi)) (component_deps (components bi))
       circular_InitializationError"

definition initializeComponent :: "component_env \<Rightarrow> initializer \<Rightarrow> component \<Rightarrow> error + unit" where
  "initializeComponent env bi c =
     (if comp_name c \<notin> set (circuitBreakers bi) then
        Inl (Exn SystemError (''Circuit breaker not found for '' @ comp_name c))
      else
        (case init_run env (comp_name c) of
           Resolve _ \<Rightarrow> Inr ()
         | Reject msg \<Rightarrow> Inl (Exn Error msg)))"

text \<open>
  The loop of \<^verbatim>\<open>initialize()\<close> over the order. A failure is written to the result; the
  failure of a required component is thrown as an \<^verbatim>\<open>InitializationError\<close>.
\<close>

fun initialize_loop ::
  "component_env \<Rightarrow> string list \<Rightarrow> BackendInitializationResult \<Rightarrow> initializer
     \<Rightarrow> (error + BackendInitializationResult) \<times> initializer" where
  "initialize_loop env [] res bi = (Inr res, bi)"
| "initialize_loop env (n # ns) res bi =
     (case map_of (components bi) n of
        None \<Rightarrow> initialize_loop env ns res bi
      | Some c \<Rightarrow>
          (case initializeComponent env bi c of
             Inr _ \<Rightarrow>
               initialize_loop env ns
                 (res\<lparr> res_initializedComponents := res_initializedComponents res @ [n] \<rparr>)
                 (bi\<lparr> initializedComponents := Set_add n (initializedComponents bi) \<rparr>)
           | Inl e \<Rightarrow>
               (let res1 = res\<lparr> failedComponents :=
                                  failedComponents res @ [(n, err_message e, comp_isRequired c)] \<rparr>
                in if comp_isRequired c then
                     (Inl (Exn InitializationError
                            (''Required component '' @ n @ '' failed to initialize: ''
                               @ err_message e)), bi)
                   else initialize_loop env ns res1 bi)))"

text \<open>The health of every initialized component, written into the result.\<close>

fun health_checks ::
  "component_env \<Rightarrow> (string \<times> component) list \<Rightarrow> string list
     \<Rightarrow> BackendInitializationResult \<Rightarrow> BackendInitializationResult" where
  "health_checks env cs [] res = res"
| "health_checks env cs (n # ns) res =
     (case map_of cs n of
        None \<Rightarrow> health_checks env cs ns res
      | Some c \<Rightarrow>
          health_checks env cs ns
            (res\<lparr> healthStatus :=
                    Map_set n (case health_run env n of
                                 Resolve h \<Rightarrow> h
                               | Reject msg \<Rightarrow> (False, Some msg))
                      (healthStatus res) \<rparr>))"

definition criticalComponents :: "string list" where
  "criticalComponents = [''logger'', ''config'', ''eventBus'']"

text \<open>
  \<^verbatim>\<open>verifySystemIntegration\<close>. The event bus test that follows the check is caught and
  logged whatever it does, so it is not modelled.
\<close>

definition verifySystemIntegration :: "initializer \<Rightarrow> error + unit" where
  "verifySystemIntegration bi =
     (let missingCritical =
            filter (\<lambda>n. n \<notin> set (initializedComponents bi)) criticalComponents in
      if length missingCritical > 0 then
        Inl (Exn InitializationError
              (''Critical components not initialized: '' @ join '', '' missingCritical))
      else Inr ())"

definition performPostInitializationChecks ::
  "component_env \<Rightarrow> BackendInitializationResult \<Rightarrow> initializer
     \<Rightarrow> error + BackendInitializationResult" where
  "performPostInitializationChecks env res bi =
     (let res1 = health_checks env (components bi) (initializedComponents bi) res in
      case verifySystemIntegration bi of
        Inl e \<Rightarrow> Inl e
      | Inr _ \<Rightarrow> Inr res1)"

text \<open>
  \<^verbatim>\<open>cleanupPartialInitialization\<close>: \<^verbatim>\<open>shutdown()\<close> of every initialized component that is
  registered, failures caught, and the set is cleared.
\<close>

definition cleanupPartialInitialization :: "initializer \<Rightarrow> initializer" where
  "cleanupPartialInitialization bi =
     bi\<lparr> shutdown_calls :=
            shutdown_calls bi
              @ filter (\<lambda>n. map_of (components bi) n \<noteq> None) (initializedComponents bi),
         initializedComponents := [] \<rparr>"

definition empty_result :: BackendInitializationResult where
  "empty_result =
     \<lparr> success = False, res_initializedComponents = [], failedComponents = [],
       healthStatus = [] \<rparr>"

definition initialize ::
  "component_env \<Rightarrow> initializer \<Rightarrow> (error + BackendInitializationResult) \<times> initializer" where
  "initialize env bi =
     (if initialized bi then (Inl (Exn InitializationError ''Backend already initialized''), bi)
      else
        (case calculateInitializationOrder bi of
           Inl e \<Rightarrow> (Inl e, cleanupPartialInitialization bi)
         | Inr ord \<Rightarrow>
             (case initialize_loop env ord empty_result (bi\<lparr> initializationOrder := ord \<rparr>) of
                (Inl e, bi1) \<Rightarrow> (Inl e, cleanupPartialInitialization bi1)
              | (Inr res, bi1) \<Rightarrow>
                  (case performPostInitializationChecks env res bi1 of
                     Inl e \<Rightarrow> (Inl e, cleanupPartialInitialization bi1)
                   | Inr res1 \<Rightarrow>
                       (if filter (\<lambda>f. snd (snd f)) (failedComponents res1) = [] then
                          (Inr (res1\<lparr> success := True \<rparr>),
                           bi1\<lparr> initialized := True,
                                emitted := emitted bi1 @ [''backend:initialized''] \<rparr>)
                        else
                          (Inl (Exn InitializationError ''Backend initialization failed''),
                           cleanupPartialInitialization
                             (bi1\<lparr> emitted :=
                                     emitted bi1 @ [''backend:initialization_failed''] \<rparr>)))))))"

text \<open>
  \<^verbatim>\<open>shutdown()\<close>: the loop over the reversed initialization order. A component leaves
  the set when its \<^verbatim>\<open>shutdown()\<close> resolved before the timer.
\<close>

fun shutdown_loop :: "component_env \<Rightarrow> string list \<Rightarrow> initializer \<Rightarrow> initializer" where
  "shutdown_loop env [] bi = bi"
| "shutdown_loop env (n # ns) bi =
     (if n \<notin> set (initializedComponents bi) then shutdown_loop env ns bi
      else
        (case map_of (components bi) n of
           None \<Rightarrow> shutdown_loop env ns bi
         | Some c \<Rightarrow>
             (case shutdown_run env n of
                Within (Resolve _) \<Rightarrow>
                  shutdown_loop env ns
                    (bi\<lparr> shutdown_calls := shutdown_calls bi @ [n],
                         initializedComponents := Set_delete n (initializedComponents bi) \<rparr>)
              | _ \<Rightarrow> shutdown_loop env ns (bi\<lparr> shutdown_calls := shutdown_calls bi @ [n] \<rparr>))))"

definition shutdown :: "component_env \<Rightarrow> initializer \<Rightarrow> initializer" where
  "shutdown env bi =
     (if \<not> initialized bi \<or> shutdownInProgress bi then bi
      else
        (let shutdownOrder = rev (initializationOrder bi);
             bi1 = shutdown_loop env shutdownOrder (bi\<lparr> shutdownInProgress := True \<rparr>)
         in bi1\<lparr> initialized := False, shutdownInProgress := False,
                 emitted := emitted bi1 @ [''backend:shutdown''] \<rparr>))"

text \<open>The components that \<^verbatim>\<open>BackendComponentFactory\<close> makes for the orchestrator.\<close>

definition createLoggerComponent :: component where
  "createLoggerComponent =
     \<lparr> comp_name = ''logger'', comp_isRequired = True, comp_dependencies = Some [] \<rparr>"

definition createEventBusComponent :: component where
  "createEventBusComponent =
     \<lparr> comp_name = ''eventBus'', comp_isRequired = True, comp_dependencies = Some [''logger''] \<rparr>"

section \<open>Orchestrator: \<^verbatim>\<open>BackendOrchestrator\<close>\<close>

text \<open>
  The orchestrator owns one initializer and one service manager. Its \<^verbatim>\<open>initialize()\<close>
  runs four phases inside one \<^verbatim>\<open>try\<close>; any error is caught, the services are stopped
  (\<^verbatim>\<open>cleanup\<close>) and an \<^verbatim>\<open>InitializationError\<close> is thrown. Phases 2 to 4 (creating and
  registering the services, \<^verbatim>\<open>startAll()\<close>, the health verification) are a parameter
  \<open>later\<close> that maps the service manager to an error or to the lists of started and failed
  services, and to the manager they leave.
\<close>

record orchestrator =
  orch_initializer :: initializer
  serviceManager :: manager
  orch_initialized :: bool

definition new_orchestrator :: orchestrator where
  "new_orchestrator =
     \<lparr> orch_initializer = new_initializer, serviceManager = new_manager,
       orch_initialized = False \<rparr>"

type_synonym later_phases = "manager \<Rightarrow> (error + string list \<times> string list) \<times> manager"

definition initializeCoreComponents ::
  "component_env \<Rightarrow> orchestrator \<Rightarrow> (error + unit) \<times> orchestrator" where
  "initializeCoreComponents env orc =
     (case initialize env
             (registerComponent createEventBusComponent
               (registerComponent createLoggerComponent (orch_initializer orc))) of
        (Inl e, bi) \<Rightarrow> (Inl e, orc\<lparr> orch_initializer := bi \<rparr>)
      | (Inr initResult, bi) \<Rightarrow>
          (if \<not> success initResult then
             (Inl (Exn InitializationError ''Core component initialization failed''),
              orc\<lparr> orch_initializer := bi \<rparr>)
           else (Inr (), orc\<lparr> orch_initializer := bi \<rparr>)))"

definition cleanup :: "(string \<Rightarrow> stop_impl) \<Rightarrow> orchestrator \<Rightarrow> orchestrator" where
  "cleanup simpl orc = orc\<lparr> serviceManager := stopAll simpl (serviceManager orc) \<rparr>"

definition orchestration_failed :: error where
  "orchestration_failed = Exn InitializationError ''Backend orchestration failed''"

definition orchestrator_initialize ::
  "component_env \<Rightarrow> (string \<Rightarrow> stop_impl) \<Rightarrow> later_phases \<Rightarrow> orchestrator
     \<Rightarrow> (error + string list \<times> string list) \<times> orchestrator" where
  "orchestrator_initialize env simpl later orc =
     (if orch_initialized orc then
        (Inl (Exn InitializationError ''Backend orchestrator already initialized''), orc)
      else
        (case initializeCoreComponents env orc of
           (Inl e, orc1) \<Rightarrow> (Inl orchestration_failed, cleanup simpl orc1)
         | (Inr _, orc1) \<Rightarrow>
             (case later (serviceManager orc1) of
                (Inl e, m) \<Rightarrow>
                  (Inl orchestration_failed, cleanup simpl (orc1\<lparr> serviceManager := m \<rparr>))
              | (Inr r, m) \<Rightarrow>
                  (Inr r, orc1\<lparr> serviceManager := m, orch_initialized := True \<rparr>))))"

definition orchestrator_shutdown ::
  "component_env \<Rightarrow> (string \<Rightarrow> stop_impl) \<Rightarrow> orchestrator \<Rightarrow> orchestrator" where
  "orchestrator_shutdown env simpl orc =
     (if \<not> orch_initialized orc then orc
      else
        orc\<lparr> serviceManager := stopAll simpl (serviceManager orc),
             orch_initializer := shutdown env (orch_initializer orc),
             orch_initialized := False \<rparr>)"

section \<open>Concrete services and runs\<close>

text \<open>Implementations whose every step resolves, and one whose \<^verbatim>\<open>doStart\<close> rejects.\<close>

definition ok_start :: start_impl where
  "ok_start = \<lparr> beforeStart = None, doStart = Within (Resolve ()), afterStart = None \<rparr>"

definition ok_stop :: stop_impl where
  "ok_stop = \<lparr> beforeStop = None, doStop = Within (Resolve ()), afterStop = None \<rparr>"

definition failing_start :: start_impl where
  "failing_start = \<lparr> beforeStart = None, doStart = Within (Reject ''boom''), afterStart = None \<rparr>"

definition demo_service :: service where
  "demo_service = new_service ''svc'' [] True DEFAULT_SERVICE_CONFIG"

definition valid_coordination_config :: CoordinationConfig where
  "valid_coordination_config =
     \<lparr> maxRetries = 3, retryDelay = 1000, deadlockDetection = JSBoolean True,
       resourceTimeout = 30000, messageTimeout = 5000 \<rparr>"

text \<open>
  Managers built by registration: a chain \<open>A\<close>, \<open>B\<close> on \<open>A\<close>, \<open>C\<close> on \<open>B\<close>; a cycle
  \<open>X\<close> on \<open>Y\<close>, \<open>Y\<close> on \<open>X\<close>; and \<open>A\<close> on \<open>C\<close> with \<open>B\<close> and \<open>C\<close> on nothing.
\<close>

definition svc :: "string \<Rightarrow> string list \<Rightarrow> service" where
  "svc n deps = new_service n deps True DEFAULT_SERVICE_CONFIG"

definition register_all :: "service list \<Rightarrow> manager \<Rightarrow> manager" where
  "register_all svcs m = foldl (\<lambda>m s. snd (registerService s m)) m svcs"

definition chain_manager :: manager where
  "chain_manager =
     register_all [svc ''A'' [], svc ''B'' [''A''], svc ''C'' [''B'']] new_manager"

definition cycle_manager :: manager where
  "cycle_manager = register_all [svc ''X'' [''Y''], svc ''Y'' [''X'']] new_manager"

definition tie_manager :: manager where
  "tie_manager = register_all [svc ''A'' [''C''], svc ''B'' [], svc ''C'' []] new_manager"

section \<open>Runs of the service manager\<close>

text \<open>
  \<open>running m n\<close>: the service registered as \<open>n\<close> is in state Running. \<open>stop_fails\<close>: it
  is Running and its \<^verbatim>\<open>stop()\<close> would throw. A manager is used through four
  operations; \<open>manager_after ops\<close> is the manager that a list of them leaves, starting
  from the constructor.
\<close>

definition running :: "manager \<Rightarrow> string \<Rightarrow> bool" where
  "running m n = (case map_of (services m) n of None \<Rightarrow> False | Some s \<Rightarrow> state s = RUNNING)"

definition stop_fails :: "(string \<Rightarrow> stop_impl) \<Rightarrow> manager \<Rightarrow> string \<Rightarrow> bool" where
  "stop_fails simpl m n =
     (case map_of (services m) n of
        None \<Rightarrow> False
      | Some s \<Rightarrow> state s = RUNNING \<and> isl (fst (stop (simpl n) s)))"

datatype manager_op =
  Register service | Unregister string
  | StartAll "string \<Rightarrow> start_impl" "string \<Rightarrow> stop_impl" | StopAll "string \<Rightarrow> stop_impl"

fun apply_op :: "manager_op \<Rightarrow> manager \<Rightarrow> manager" where
  "apply_op (Register s) m = snd (registerService s m)"
| "apply_op (Unregister n) m = snd (unregisterService n m)"
| "apply_op (StartAll timpl simpl) m = snd (startAll timpl simpl m)"
| "apply_op (StopAll simpl) m = stopAll simpl m"

definition manager_after :: "manager_op list \<Rightarrow> manager" where
  "manager_after ops = foldl (\<lambda>m op. apply_op op m) new_manager ops"

text \<open>
  The implementations of scenario A: the start of \<open>B\<close> fails, every stop succeeds.
\<close>

definition fail_B :: "string \<Rightarrow> start_impl" where
  "fail_B n = (if n = ''B'' then failing_start else ok_start)"

definition all_stop :: "string \<Rightarrow> stop_impl" where
  "all_stop n = ok_stop"

text \<open>A manager with an optional service \<open>O\<close> whose start fails, and a service \<open>P\<close>.\<close>

definition optional_manager :: manager where
  "optional_manager =
     register_all [new_service ''O'' [] False DEFAULT_SERVICE_CONFIG, svc ''P'' []] new_manager"

definition fail_O :: "string \<Rightarrow> start_impl" where
  "fail_O n = (if n = ''O'' then failing_start else ok_start)"

text \<open>
  Scenario A as a run of the manager: the three registrations, then \<^verbatim>\<open>startAll()\<close> with
  every start succeeding. And an initializer with the three critical components, the
  logger first, one with two components that depend on each other, and an environment
  in which every component initializes, is healthy and shuts down.
\<close>

definition all_start :: "string \<Rightarrow> start_impl" where
  "all_start n = ok_start"

definition chain_ops :: "manager_op list" where
  "chain_ops =
     [Register (svc ''A'' []), Register (svc ''B'' [''A'']), Register (svc ''C'' [''B'']),
      StartAll all_start all_stop]"

definition config_component :: component where
  "config_component =
     \<lparr> comp_name = ''config'', comp_isRequired = True, comp_dependencies = Some [''logger''] \<rparr>"

definition core_initializer :: initializer where
  "core_initializer =
     registerComponent config_component
       (registerComponent createEventBusComponent
         (registerComponent createLoggerComponent new_initializer))"

definition cycle_initializer :: initializer where
  "cycle_initializer =
     registerComponent
       \<lparr> comp_name = ''Y'', comp_isRequired = True, comp_dependencies = Some [''X''] \<rparr>
       (registerComponent
         \<lparr> comp_name = ''X'', comp_isRequired = True, comp_dependencies = Some [''Y''] \<rparr>
         new_initializer)"

definition ok_env :: component_env where
  "ok_env =
     \<lparr> init_run = (\<lambda>n. Resolve ()), shutdown_run = (\<lambda>n. Within (Resolve ())),
       health_run = (\<lambda>n. Resolve (True, None)) \<rparr>"

section \<open>Runs of the orchestrator\<close>

text \<open>
  The public calls that change an orchestrator: \<^verbatim>\<open>initialize()\<close>, \<^verbatim>\<open>shutdown()\<close> and
  \<^verbatim>\<open>restart()\<close>, which is \<^verbatim>\<open>shutdown()\<close> followed by \<^verbatim>\<open>initialize()\<close>. An exception
  leaves the orchestrator as the throwing call left it. \<open>orchestrator_after ops\<close> is
  the orchestrator after a list of calls on a new one. \<open>config_absent\<close> says that no
  component named config is registered with the initializer or stands in its
  initialized set.
\<close>

datatype orchestrator_op =
  Initialize component_env "string \<Rightarrow> stop_impl" later_phases
  | Shutdown component_env "string \<Rightarrow> stop_impl"
  | Restart component_env "string \<Rightarrow> stop_impl" later_phases

fun apply_orchestrator_op :: "orchestrator_op \<Rightarrow> orchestrator \<Rightarrow> orchestrator" where
  "apply_orchestrator_op (Initialize env simpl later) orc =
     snd (orchestrator_initialize env simpl later orc)"
| "apply_orchestrator_op (Shutdown env simpl) orc = orchestrator_shutdown env simpl orc"
| "apply_orchestrator_op (Restart env simpl later) orc =
     snd (orchestrator_initialize env simpl later (orchestrator_shutdown env simpl orc))"

definition orchestrator_after :: "orchestrator_op list \<Rightarrow> orchestrator" where
  "orchestrator_after ops = foldl (\<lambda>orc op. apply_orchestrator_op op orc) new_orchestrator ops"

definition config_absent :: "initializer \<Rightarrow> bool" where
  "config_absent bi \<longleftrightarrow>
     ''config'' \<notin> set (initializedComponents bi) \<and> ''config'' \<notin> set (Map_keys (components bi))"

text \<open>Later phases that would succeed, and the orchestrator's two components registered.\<close>

definition later_ok :: later_phases where
  "later_ok m = (Inr ([''terminalManager'', ''coordinationManager'', ''memoryManager'',
                       ''mcpServer''], []), m)"

definition orchestrator_components :: initializer where
  "orchestrator_components =
     registerComponent createEventBusComponent
       (registerComponent createLoggerComponent new_initializer)"

section \<open>Transitions of the lifecycle state machine\<close>






text \<open>
  A service that allows no restart at all, and the calls that leave one of its timers
  behind: the check at the limit puts it into Error with its timer live, the next
  \<^verbatim>\<open>start()\<close> creates a second timer over the handle of the first, and \<^verbatim>\<open>stop()\<close> clears
  only the second.
\<close>

definition no_restart_service :: service where
  "no_restart_service =
     new_service ''svc'' [] True (DEFAULT_SERVICE_CONFIG\<lparr> maxRestartAttempts := 0 \<rparr>)"

definition stopped_with_timer :: service where
  "stopped_with_timer =
     snd (stop ok_stop
       (snd (start ok_start
         (timer_fires (Resolve False) ok_stop ok_start
           (snd (start ok_start no_restart_service))))))"




section \<open>Properties of the lifecycle state machine\<close>

lemmas lifecycle_defs =
  start_def start_steps_def stop_def stop_steps_def restart_def healthCheck_def
  healthCheckCallback_def timer_fires_def run_hook_def run_raced_def set_state_def
  log_line_def emit_def record_error_def startHealthChecks_def stopHealthChecks_def
  new_service_def DEFAULT_SERVICE_CONFIG_def

lemma start_steps_state: "state (snd (start_steps impl s)) = state s"
  by (simp add: start_steps_def run_hook_def run_raced_def
      split: option.splits outcome.splits raced.splits prod.splits sum.splits)

lemma start_steps_history: "history (snd (start_steps impl s)) = history s"
  by (simp add: start_steps_def run_hook_def run_raced_def
      split: option.splits outcome.splits raced.splits prod.splits sum.splits)

lemma start_history:
  assumes "state s \<noteq> RUNNING" and "state s \<noteq> STARTING"
  shows "history (snd (start impl s)) = history s @ [STARTING, state (snd (start impl s))]"
    and "state (snd (start impl s)) = RUNNING \<and> fst (start impl s) = Inr ()
         \<or> state (snd (start impl s)) = ERROR
            \<and> fst (start impl s)
                = Inl (Exn ServiceStartupError (''Failed to start service '' @ name s))"
  using assms
    start_steps_history[of impl "set_state STARTING (log_line Info ''Starting service'' s)"]
    start_steps_state[of impl "set_state STARTING (log_line Info ''Starting service'' s)"]
  by (auto simp add: start_def set_state_def log_line_def emit_def startHealthChecks_def
      record_error_def split: prod.splits sum.splits)

text \<open>
  C6, as the code has it. \<^verbatim>\<open>start()\<close> returns at once with a warning when the service is
  Running, leaving state, history and subclass untouched; it throws a
  \<^verbatim>\<open>ServiceStartupError\<close> and changes nothing when the service is Starting; in every
  other state, Stopping among them, the next value it writes to the state is Starting.
\<close>

theorem start_by_state:
  "(state s = RUNNING \<longrightarrow>
      start impl s = (Inr (), log_line Warn ''Service already running'' s)
      \<and> state (snd (start impl s)) = RUNNING
      \<and> history (snd (start impl s)) = history s
      \<and> invoked (snd (start impl s)) = invoked s)
   \<and> (state s = STARTING \<longrightarrow>
      start impl s =
        (Inl (Exn ServiceStartupError (''Service '' @ name s @ '' is already starting'')), s))
   \<and> (state s \<noteq> RUNNING \<and> state s \<noteq> STARTING \<longrightarrow>
      (\<exists>final. history (snd (start impl s)) = history s @ [STARTING, final]))"
  using start_history(1)[of s impl]
  by (auto simp: start_def log_line_def)

theorem start_by_state_witness:
  "fst (start ok_start (demo_service\<lparr> state := RUNNING \<rparr>)) = Inr ()
   \<and> history (snd (start ok_start (demo_service\<lparr> state := RUNNING \<rparr>))) = []
   \<and> fst (start ok_start (demo_service\<lparr> state := STARTING \<rparr>))
       = Inl (Exn ServiceStartupError ''Service svc is already starting'')
   \<and> (\<exists>final. history (snd (start ok_start demo_service)) = [STARTING, final])"
  using start_by_state[of "demo_service\<lparr> state := RUNNING \<rparr>" ok_start]
    start_by_state[of "demo_service\<lparr> state := STARTING \<rparr>" ok_start]
    start_by_state[of demo_service ok_start]
  by (simp add: demo_service_def new_service_def log_line_def)

text \<open>
  The claim C6 says that \<^verbatim>\<open>start()\<close> raises when the service is Stopping. It does not:
  called on a service whose \<^verbatim>\<open>stop()\<close> is still in flight, it goes to Starting and on to
  Running, and returns.
\<close>

theorem start_while_stopping_counterexample:
  "fst (start ok_start (demo_service\<lparr> state := STOPPING \<rparr>)) = Inr ()
   \<and> history (snd (start ok_start (demo_service\<lparr> state := STOPPING \<rparr>))) = [STARTING, RUNNING]
   \<and> state (snd (start ok_start (demo_service\<lparr> state := STOPPING \<rparr>))) = RUNNING"
  by (simp add: lifecycle_defs ok_start_def demo_service_def)

text \<open>
  C10. \<^verbatim>\<open>healthCheck()\<close> returns false and leaves the service as it is, without a call
  of \<^verbatim>\<open>doHealthCheck\<close>, in every state other than Running; \<^verbatim>\<open>doHealthCheck\<close> is called
  exactly when the state is Running; and when it throws, the answer is false and
  nothing is thrown.
\<close>

theorem healthCheck_false_unless_running:
  "(state s \<noteq> RUNNING \<longrightarrow> healthCheck h s = (False, s))
   \<and> invoked (snd (healthCheck h s))
       = (if state s = RUNNING then invoked s @ [DoHealthCheck] else invoked s)
   \<and> fst (healthCheck (Reject msg) s) = False"
  by (simp add: healthCheck_def log_line_def split: outcome.splits)

theorem healthCheck_false_unless_running_witness:
  "healthCheck (Resolve True) (demo_service\<lparr> state := MAINTENANCE \<rparr>)
     = (False, demo_service\<lparr> state := MAINTENANCE \<rparr>)
   \<and> healthCheck (Resolve True) (demo_service\<lparr> state := STARTING \<rparr>)
     = (False, demo_service\<lparr> state := STARTING \<rparr>)
   \<and> invoked (snd (healthCheck (Resolve True) (demo_service\<lparr> state := RUNNING \<rparr>)))
     = [DoHealthCheck]
   \<and> fst (healthCheck (Reject ''down'') (demo_service\<lparr> state := RUNNING \<rparr>)) = False"
  using healthCheck_false_unless_running[of "demo_service\<lparr> state := MAINTENANCE \<rparr>" "Resolve True" "''down''"]
    healthCheck_false_unless_running[of "demo_service\<lparr> state := STARTING \<rparr>" "Resolve True" "''down''"]
    healthCheck_false_unless_running[of "demo_service\<lparr> state := RUNNING \<rparr>" "Resolve True" "''down''"]
  by (simp add: demo_service_def new_service_def)

section \<open>Properties of the coordination service\<close>

lemma beforeStart_rejects_iff:
  "(\<exists>msg. snd (CoordinationService_beforeStart cc) = Reject msg)
     \<longleftrightarrow> (maxRetries cc < 0 \<or> retryDelay cc \<le> 0 \<or> resourceTimeout cc \<le> 0
          \<or> messageTimeout cc \<le> 0 \<or> (\<nexists>b. deadlockDetection cc = JSBoolean b))"
  by (cases "deadlockDetection cc") (auto simp: CoordinationService_beforeStart_def Let_def)

lemma beforeStart_resolves_iff:
  "snd (CoordinationService_beforeStart cc) = Resolve ()
     \<longleftrightarrow> \<not> (maxRetries cc < 0 \<or> retryDelay cc \<le> 0 \<or> resourceTimeout cc \<le> 0
            \<or> messageTimeout cc \<le> 0 \<or> (\<nexists>b. deadlockDetection cc = JSBoolean b))"
  by (cases "deadlockDetection cc") (auto simp: CoordinationService_beforeStart_def Let_def)

lemma start_rejected_hook:
  assumes "state s \<noteq> RUNNING" and "state s \<noteq> STARTING" and "beforeStart impl = Some (Reject msg)"
  shows "start impl s =
           (Inl (Exn ServiceStartupError (''Failed to start service '' @ name s)),
            emit (service_error (name s) msg)
              (log_line Err ''Service startup failed''
                (record_error msg
                  (set_state ERROR
                    ((set_state STARTING (log_line Info ''Starting service'' s))
                       \<lparr> invoked := invoked s @ [BeforeStart] \<rparr>)))))"
  using assms
  by (simp add: start_def start_steps_def run_hook_def set_state_def log_line_def)

text \<open>
  C7. The configuration check of the coordination service rejects exactly the
  configurations with \<open>maxRetries < 0\<close>, \<open>retryDelay \<le> 0\<close>, \<open>resourceTimeout \<le> 0\<close>,
  \<open>messageTimeout \<le> 0\<close> or a \<open>deadlockDetection\<close> that is not a boolean, and resolves on
  all others. A rejection is fatal to the start: \<^verbatim>\<open>start()\<close> of the freshly built
  service throws a \<^verbatim>\<open>ServiceStartupError\<close>, the service is left in Error with the
  error counted, \<^verbatim>\<open>doStart\<close> is never called, and the service is a required one.
\<close>

theorem coordination_config_validated:
  "((maxRetries cc < 0 \<or> retryDelay cc \<le> 0 \<or> resourceTimeout cc \<le> 0
      \<or> messageTimeout cc \<le> 0 \<or> (\<nexists>b. deadlockDetection cc = JSBoolean b))
     \<longrightarrow> (\<exists>msg. snd (CoordinationService_beforeStart cc) = Reject msg)
        \<and> fst (start (CoordinationService_impl cc run) (CoordinationService cfg))
            = Inl (Exn ServiceStartupError ''Failed to start service coordinationManager'')
        \<and> state (snd (start (CoordinationService_impl cc run) (CoordinationService cfg))) = ERROR
        \<and> errorCount (metrics (snd (start (CoordinationService_impl cc run)
                                        (CoordinationService cfg)))) = 1
        \<and> DoStart \<notin> set (invoked (snd (start (CoordinationService_impl cc run)
                                          (CoordinationService cfg))))
        \<and> isRequired (CoordinationService cfg))
   \<and> (\<not> (maxRetries cc < 0 \<or> retryDelay cc \<le> 0 \<or> resourceTimeout cc \<le> 0
          \<or> messageTimeout cc \<le> 0 \<or> (\<nexists>b. deadlockDetection cc = JSBoolean b))
     \<longrightarrow> snd (CoordinationService_beforeStart cc) = Resolve ())"
proof (intro conjI impI)
  assume bad: "maxRetries cc < 0 \<or> retryDelay cc \<le> 0 \<or> resourceTimeout cc \<le> 0
      \<or> messageTimeout cc \<le> 0 \<or> (\<nexists>b. deadlockDetection cc = JSBoolean b)"
  then obtain msg where msg: "snd (CoordinationService_beforeStart cc) = Reject msg"
    using beforeStart_rejects_iff[of cc] by blast
  then show "\<exists>msg. snd (CoordinationService_beforeStart cc) = Reject msg" by blast
  have hook: "beforeStart (CoordinationService_impl cc run) = Some (Reject msg)"
    by (simp add: CoordinationService_impl_def msg)
  have st: "state (CoordinationService cfg) \<noteq> RUNNING" "state (CoordinationService cfg) \<noteq> STARTING"
    by (simp_all add: CoordinationService_def new_service_def)
  note r = start_rejected_hook[OF st hook]
  have nm: "name (CoordinationService cfg) = ''coordinationManager''"
    and inv: "invoked (CoordinationService cfg) = []"
    and ec: "errorCount (metrics (CoordinationService cfg)) = 0"
    by (simp_all add: CoordinationService_def new_service_def)
  show "fst (start (CoordinationService_impl cc run) (CoordinationService cfg))
            = Inl (Exn ServiceStartupError ''Failed to start service coordinationManager'')"
    unfolding r fst_conv nm by simp
  show "state (snd (start (CoordinationService_impl cc run) (CoordinationService cfg))) = ERROR"
    unfolding r snd_conv by (simp add: emit_def log_line_def record_error_def set_state_def)
  show "errorCount (metrics (snd (start (CoordinationService_impl cc run)
                                        (CoordinationService cfg)))) = 1"
    unfolding r snd_conv
    by (simp add: emit_def log_line_def record_error_def set_state_def ec)
  show "DoStart \<notin> set (invoked (snd (start (CoordinationService_impl cc run)
                                          (CoordinationService cfg))))"
    unfolding r snd_conv
    by (simp add: emit_def log_line_def record_error_def set_state_def inv)
  show "isRequired (CoordinationService cfg)"
    by (simp add: CoordinationService_def new_service_def)
next
  assume "\<not> (maxRetries cc < 0 \<or> retryDelay cc \<le> 0 \<or> resourceTimeout cc \<le> 0
          \<or> messageTimeout cc \<le> 0 \<or> (\<nexists>b. deadlockDetection cc = JSBoolean b))"
  then show "snd (CoordinationService_beforeStart cc) = Resolve ()"
    using beforeStart_resolves_iff[of cc] by blast
qed

theorem coordination_config_validated_witness:
  "fst (start (CoordinationService_impl (valid_coordination_config\<lparr> retryDelay := 0 \<rparr>)
               (Within (Resolve ())))
         (CoordinationService DEFAULT_SERVICE_CONFIG))
     = Inl (Exn ServiceStartupError ''Failed to start service coordinationManager'')
   \<and> state (snd (start (CoordinationService_impl (valid_coordination_config\<lparr> retryDelay := 0 \<rparr>)
                        (Within (Resolve ())))
                  (CoordinationService DEFAULT_SERVICE_CONFIG))) = ERROR
   \<and> snd (CoordinationService_beforeStart valid_coordination_config) = Resolve ()"
proof -
  have bad: "maxRetries (valid_coordination_config\<lparr> retryDelay := 0 \<rparr>) < 0
      \<or> retryDelay (valid_coordination_config\<lparr> retryDelay := 0 \<rparr>) \<le> 0
      \<or> resourceTimeout (valid_coordination_config\<lparr> retryDelay := 0 \<rparr>) \<le> 0
      \<or> messageTimeout (valid_coordination_config\<lparr> retryDelay := 0 \<rparr>) \<le> 0
      \<or> (\<nexists>b. deadlockDetection (valid_coordination_config\<lparr> retryDelay := 0 \<rparr>) = JSBoolean b)"
    by simp
  have good: "\<not> (maxRetries valid_coordination_config < 0
      \<or> retryDelay valid_coordination_config \<le> 0
      \<or> resourceTimeout valid_coordination_config \<le> 0
      \<or> messageTimeout valid_coordination_config \<le> 0
      \<or> (\<nexists>b. deadlockDetection valid_coordination_config = JSBoolean b))"
    by (auto simp add: valid_coordination_config_def)
  show ?thesis
    using coordination_config_validated[of "valid_coordination_config\<lparr> retryDelay := 0 \<rparr>"
        "Within (Resolve ())" DEFAULT_SERVICE_CONFIG] bad
      coordination_config_validated[of valid_coordination_config "Within (Resolve ())"
        DEFAULT_SERVICE_CONFIG] good
    by blast
qed

section \<open>Properties of the dependency graph resolver\<close>

lemma extends_refl: "extends st st"
  by (simp add: extends_def)

lemma extends_trans: "extends a b \<Longrightarrow> extends b c \<Longrightarrow> extends a c"
  unfolding extends_def
  apply (elim conjE exE)
  subgoal for zs1 zs2
    apply (intro conjI)
     apply simp
    apply (rule exI[of _ "zs1 @ zs2"])
    apply auto
    done
  done

lemma visit_extends:
  "visit keys deps mk n st = Inr st' \<Longrightarrow> extends st st' \<and> n \<in> visited st'"
  "visit_deps keys deps mk ds st = Inr st' \<Longrightarrow>
     extends st st' \<and> (\<forall>d \<in> set ds. d \<in> set keys \<longrightarrow> d \<in> visited st')"
proof (induct keys deps mk n st and keys deps mk ds st arbitrary: st' and st'
    rule: visit_visit_deps.induct)
  case (1 keys deps mk n st)
  show ?case
  proof (cases "n \<in> visited st")
    case True
    then show ?thesis using 1(2) by (auto simp: visit.simps extends_refl split: if_splits)
  next
    case False
    from 1(2) have nv: "n \<notin> visiting st" by (auto simp: visit.simps split: if_splits)
    from 1(2) False nv obtain st2 where
      r: "visit_deps keys deps mk (deps n) (st\<lparr> visiting := insert n (visiting st) \<rparr>) = Inr st2"
      and e: "st' = st2\<lparr> visiting := visiting st2 - {n}, visited := insert n (visited st2),
                          order := order st2 @ [n] \<rparr>"
      by (auto simp: visit.simps split: sum.splits)
    from 1(1)[OF nv False r] have x: "extends (st\<lparr> visiting := insert n (visiting st) \<rparr>) st2" by simp
    then obtain zs where zs: "visiting st2 = insert n (visiting st)" "order st2 = order st @ zs"
      "visited st2 = visited st \<union> set zs" "set zs \<inter> (insert n (visiting st) \<union> visited st) = {}"
      "distinct zs"
      by (auto simp: extends_def)
    have "extends st st'"
      unfolding extends_def
      apply (intro conjI)
      using zs e nv apply simp
      apply (rule exI[of _ "zs @ [n]"])
      using zs e nv False apply auto
      done
    then show ?thesis using e by simp
  qed
next
  case (2 keys deps mk st)
  then show ?case by (simp add: visit_deps.simps extends_refl)
next
  case (3 keys deps mk d ds st)
  show ?case
  proof (cases "d \<in> set keys")
    case True
    with 3(4) obtain st2 where r: "visit keys deps mk d st = Inr st2"
      and r2: "visit_deps keys deps mk ds st2 = Inr st'"
      by (auto simp: visit_deps.simps split: sum.splits)
    from 3(1)[OF True r] have a: "extends st st2" "d \<in> visited st2" by simp_all
    from 3(2)[OF True r r2] have b: "extends st2 st'" "\<forall>d \<in> set ds. d \<in> set keys \<longrightarrow> d \<in> visited st'"
      by simp_all
    have "d \<in> visited st'" using a(2) b(1) by (auto simp: extends_def)
    then show ?thesis using extends_trans[OF a(1) b(1)] b(2) by simp
  next
    case False
    with 3(4) have r2: "visit_deps keys deps mk ds st = Inr st'" by (simp add: visit_deps.simps)
    from 3(3)[OF False r2] False show ?thesis by simp
  qed
qed

lemma position_append: "a \<in> set xs \<Longrightarrow> position (xs @ zs) a = position xs a"
  using takeWhile_append1[of a xs "\<lambda>x. x \<noteq> a" zs] by (simp add: position_def)

lemma position_fresh: "n \<notin> set xs \<Longrightarrow> position (xs @ [n]) n = length xs"
  by (induction xs) (auto simp: position_def)

lemma position_less: "a \<in> set xs \<Longrightarrow> position xs a < length xs"
  by (induction xs) (auto simp: position_def)

lemma position_ge: "a \<notin> set xs \<Longrightarrow> length xs \<le> position (xs @ zs) a"
  by (induction xs) (auto simp: position_def)

lemma precedes_append: "precedes xs a b \<Longrightarrow> precedes (xs @ zs) a b"
  by (auto simp: precedes_def position_append)

lemma precedes_fresh: "d \<in> set xs \<Longrightarrow> n \<notin> set xs \<Longrightarrow> precedes (xs @ [n]) d n"
  by (simp add: precedes_def position_append position_fresh position_less)

lemma precedes_prefix:
  "precedes (xs @ zs) a b \<Longrightarrow> b \<in> set xs \<Longrightarrow> a \<in> set xs"
proof (rule ccontr)
  assume p: "precedes (xs @ zs) a b" and b: "b \<in> set xs" and a: "a \<notin> set xs"
  have "position (xs @ zs) b = position xs b" using b by (rule position_append)
  moreover have "position xs b < length xs" using b by (rule position_less)
  moreover have "length xs \<le> position (xs @ zs) a"
    using a by (rule position_ge)
  ultimately show False using p by (simp add: precedes_def)
qed

lemma extends_visited_order:
  "extends st st' \<Longrightarrow> visited st = set (order st) \<Longrightarrow> visited st' = set (order st')"
  by (auto simp: extends_def)

lemma visit_deps_first:
  "visit keys deps mk n st = Inr st' \<Longrightarrow> visited st = set (order st) \<Longrightarrow>
     deps_first keys deps (order st) \<Longrightarrow> deps_first keys deps (order st')"
  "visit_deps keys deps mk ds st = Inr st' \<Longrightarrow> visited st = set (order st) \<Longrightarrow>
     deps_first keys deps (order st) \<Longrightarrow> deps_first keys deps (order st')"
proof (induct keys deps mk n st and keys deps mk ds st arbitrary: st' and st'
    rule: visit_visit_deps.induct)
  case (1 keys deps mk n st)
  show ?case
  proof (cases "n \<in> visited st")
    case True
    then show ?thesis using 1(2,4) by (auto simp: visit.simps split: if_splits)
  next
    case False
    from 1(2) have nv: "n \<notin> visiting st" by (auto simp: visit.simps split: if_splits)
    from 1(2) False nv obtain st2 where
      r: "visit_deps keys deps mk (deps n) (st\<lparr> visiting := insert n (visiting st) \<rparr>) = Inr st2"
      and e: "st' = st2\<lparr> visiting := visiting st2 - {n}, visited := insert n (visited st2),
                          order := order st2 @ [n] \<rparr>"
      by (auto simp: visit.simps split: sum.splits)
    have df2: "deps_first keys deps (order st2)"
      using 1(1)[OF nv False r] 1(3,4) by simp
    from visit_extends(2)[OF r] have x: "extends (st\<lparr> visiting := insert n (visiting st) \<rparr>) st2"
      and dv: "\<forall>d \<in> set (deps n). d \<in> set keys \<longrightarrow> d \<in> visited st2" by simp_all
    have vo2: "visited st2 = set (order st2)"
      using extends_visited_order[OF x] 1(3) by simp
    have fresh: "n \<notin> set (order st2)"
      using x False 1(3) by (auto simp: extends_def)
    show ?thesis
      unfolding deps_first_def e
    proof (intro ballI impI)
      fix x d
      assume xin: "x \<in> set (order (st2\<lparr> visiting := visiting st2 - {n}, visited := insert n (visited st2),
                          order := order st2 @ [n] \<rparr>))"
        and d: "d \<in> set (deps x)" "d \<in> set keys"
      show "precedes (order (st2\<lparr> visiting := visiting st2 - {n}, visited := insert n (visited st2),
                          order := order st2 @ [n] \<rparr>)) d x"
      proof (cases "x = n")
        case True
        then have "d \<in> set (order st2)" using dv d vo2 by auto
        then show ?thesis using True fresh by (simp add: precedes_fresh)
      next
        case False
        then have "x \<in> set (order st2)" using xin by simp
        then have "precedes (order st2) d x" using df2 d by (auto simp: deps_first_def)
        then show ?thesis by (simp add: precedes_append)
      qed
    qed
  qed
next
  case (2 keys deps mk st)
  then show ?case by (simp add: visit_deps.simps)
next
  case (3 keys deps mk d ds st)
  show ?case
  proof (cases "d \<in> set keys")
    case True
    with 3(4) obtain st2 where r: "visit keys deps mk d st = Inr st2"
      and r2: "visit_deps keys deps mk ds st2 = Inr st'"
      by (auto simp: visit_deps.simps split: sum.splits)
    have a: "deps_first keys deps (order st2)" using 3(1)[OF True r 3(5,6)] .
    have b: "visited st2 = set (order st2)"
      using extends_visited_order visit_extends(1)[OF r] 3(5) by blast
    show ?thesis using 3(2)[OF True r r2 b a] .
  next
    case False
    with 3(4) have r2: "visit_deps keys deps mk ds st = Inr st'" by (simp add: visit_deps.simps)
    from 3(3)[OF False r2 3(5,6)] show ?thesis .
  qed
qed

lemma visit_reach:
  "visit keys deps mk n st = Inr st' \<Longrightarrow> n \<in> set keys \<Longrightarrow>
     set (order st') \<subseteq> set (order st) \<union> {x. (n, x) \<in> (dep_edges keys deps)\<^sup>*}"
  "visit_deps keys deps mk ds st = Inr st' \<Longrightarrow> p \<in> set keys \<Longrightarrow> set ds \<subseteq> set (deps p) \<Longrightarrow>
     set (order st') \<subseteq> set (order st) \<union> {x. (p, x) \<in> (dep_edges keys deps)\<^sup>*}"
proof (induct keys deps mk n st and keys deps mk ds st arbitrary: st' and st' p
    rule: visit_visit_deps.induct)
  case (1 keys deps mk n st)
  show ?case
  proof (cases "n \<in> visited st")
    case True
    then show ?thesis using 1(2) by (auto simp: visit.simps split: if_splits)
  next
    case False
    from 1(2) have nv: "n \<notin> visiting st" by (auto simp: visit.simps split: if_splits)
    from 1(2) False nv obtain st2 where
      r: "visit_deps keys deps mk (deps n) (st\<lparr> visiting := insert n (visiting st) \<rparr>) = Inr st2"
      and e: "st' = st2\<lparr> visiting := visiting st2 - {n}, visited := insert n (visited st2),
                          order := order st2 @ [n] \<rparr>"
      by (auto simp: visit.simps split: sum.splits)
    from 1(1)[OF nv False r 1(3)] have
      "set (order st2) \<subseteq> set (order st) \<union> {x. (n, x) \<in> (dep_edges keys deps)\<^sup>*}" by simp
    then show ?thesis using e by auto
  qed
next
  case (2 keys deps mk st)
  then show ?case by (simp add: visit_deps.simps)
next
  case (3 keys deps mk d ds st)
  from 3(6) have sub: "set ds \<subseteq> set (deps p)" and din: "d \<in> set (deps p)" by auto
  show ?case
  proof (cases "d \<in> set keys")
    case True
    with 3(4) obtain st2 where r: "visit keys deps mk d st = Inr st2"
      and r2: "visit_deps keys deps mk ds st2 = Inr st'"
      by (auto simp: visit_deps.simps split: sum.splits)
    have edge: "(p, d) \<in> dep_edges keys deps" using True 3(5) din by (simp add: dep_edges_def)
    have a: "set (order st2) \<subseteq> set (order st) \<union> {x. (d, x) \<in> (dep_edges keys deps)\<^sup>*}"
      using 3(1)[OF True r True] .
    have b: "set (order st') \<subseteq> set (order st2) \<union> {x. (p, x) \<in> (dep_edges keys deps)\<^sup>*}"
      using 3(2)[OF True r r2 3(5) sub] .
    have "(p, x) \<in> (dep_edges keys deps)\<^sup>*" if "(d, x) \<in> (dep_edges keys deps)\<^sup>*" for x
      using edge that by (rule converse_rtrancl_into_rtrancl)
    then show ?thesis using a b by blast
  next
    case False
    with 3(4) have r2: "visit_deps keys deps mk ds st = Inr st'" by (simp add: visit_deps.simps)
    from 3(3)[OF False r2 3(5) sub] show ?thesis .
  qed
qed

lemma visit_failure:
  "visit keys deps mk n st = Inl e \<Longrightarrow> n \<in> set keys \<Longrightarrow>
     \<forall>v \<in> visiting st. (v, n) \<in> (dep_edges keys deps)\<^sup>+ \<Longrightarrow>
     \<exists>x. e = mk x \<and> (x, x) \<in> (dep_edges keys deps)\<^sup>+"
  "visit_deps keys deps mk ds st = Inl e \<Longrightarrow> p \<in> set keys \<Longrightarrow> set ds \<subseteq> set (deps p) \<Longrightarrow>
     \<forall>v \<in> visiting st. (v, p) \<in> (dep_edges keys deps)\<^sup>* \<Longrightarrow>
     \<exists>x. e = mk x \<and> (x, x) \<in> (dep_edges keys deps)\<^sup>+"
proof (induct keys deps mk n st and keys deps mk ds st arbitrary: e and e p
    rule: visit_visit_deps.induct)
  case (1 keys deps mk n st)
  show ?case
  proof (cases "n \<in> visiting st")
    case True
    then have "e = mk n" using 1(2) by (simp add: visit.simps)
    then show ?thesis using True 1(4) by blast
  next
    case False
    with 1(2) have nvd: "n \<notin> visited st" by (auto simp: visit.simps split: if_splits)
    from 1(2) False nvd have
      r: "visit_deps keys deps mk (deps n) (st\<lparr> visiting := insert n (visiting st) \<rparr>) = Inl e"
      by (auto simp: visit.simps split: sum.splits)
    have "\<forall>v \<in> visiting (st\<lparr> visiting := insert n (visiting st) \<rparr>). (v, n) \<in> (dep_edges keys deps)\<^sup>*"
      using 1(4) by auto
    from 1(1)[OF False nvd r 1(3) subset_refl this] show ?thesis .
  qed
next
  case (2 keys deps mk st)
  then show ?case by (simp add: visit_deps.simps)
next
  case (3 keys deps mk d ds st)
  from 3(6) have sub: "set ds \<subseteq> set (deps p)" and din: "d \<in> set (deps p)" by auto
  show ?case
  proof (cases "d \<in> set keys")
    case True
    have edge: "(p, d) \<in> dep_edges keys deps" using True 3(5) din by (simp add: dep_edges_def)
    show ?thesis
    proof (cases "visit keys deps mk d st")
      case (Inl e')
      then have "e' = e" using 3(4) True by (simp add: visit_deps.simps)
      moreover have "\<forall>v \<in> visiting st. (v, d) \<in> (dep_edges keys deps)\<^sup>+"
        using 3(7) edge by (meson rtrancl_into_trancl1)
      ultimately show ?thesis using 3(1)[OF True _ True] Inl by blast
    next
      case (Inr st2)
      then have r2: "visit_deps keys deps mk ds st2 = Inl e"
        using 3(4) True by (simp add: visit_deps.simps)
      have "visiting st2 = visiting st" using visit_extends(1)[OF Inr] by (simp add: extends_def)
      then have "\<forall>v \<in> visiting st2. (v, p) \<in> (dep_edges keys deps)\<^sup>*" using 3(7) by simp
      from 3(2)[OF True Inr r2 3(5) sub this] show ?thesis .
    qed
  next
    case False
    with 3(4) have r2: "visit_deps keys deps mk ds st = Inl e" by (simp add: visit_deps.simps)
    from 3(3)[OF False r2 3(5) sub 3(7)] show ?thesis .
  qed
qed

lemma visit_all_extends:
  "visit_all keys deps mk ns st = Inr st' \<Longrightarrow> extends st st' \<and> set ns \<subseteq> visited st'"
proof (induction ns arbitrary: st)
  case Nil
  then show ?case by (simp add: extends_refl)
next
  case (Cons n ns)
  show ?case
  proof (cases "n \<in> visited st")
    case True
    with Cons.prems have r: "visit_all keys deps mk ns st = Inr st'" by simp
    from Cons.IH[OF r] True show ?thesis by (auto simp: extends_def)
  next
    case False
    with Cons.prems obtain st2 where r: "visit keys deps mk n st = Inr st2"
      and r2: "visit_all keys deps mk ns st2 = Inr st'"
      by (auto split: sum.splits)
    from visit_extends(1)[OF r] have a: "extends st st2" "n \<in> visited st2" by simp_all
    from Cons.IH[OF r2] have b: "extends st2 st'" "set ns \<subseteq> visited st'" by simp_all
    have "n \<in> visited st'" using a(2) b(1) by (auto simp: extends_def)
    then show ?thesis using extends_trans[OF a(1) b(1)] b(2) by simp
  qed
qed

lemma visit_all_deps_first:
  "visit_all keys deps mk ns st = Inr st' \<Longrightarrow> visited st = set (order st) \<Longrightarrow>
     deps_first keys deps (order st) \<Longrightarrow> deps_first keys deps (order st')"
proof (induction ns arbitrary: st)
  case Nil
  then show ?case by simp
next
  case (Cons n ns)
  show ?case
  proof (cases "n \<in> visited st")
    case True
    with Cons.prems have r: "visit_all keys deps mk ns st = Inr st'" by simp
    from Cons.IH[OF r Cons.prems(2,3)] show ?thesis .
  next
    case False
    with Cons.prems obtain st2 where r: "visit keys deps mk n st = Inr st2"
      and r2: "visit_all keys deps mk ns st2 = Inr st'"
      by (auto split: sum.splits)
    have a: "deps_first keys deps (order st2)" using visit_deps_first(1)[OF r Cons.prems(2,3)] .
    have b: "visited st2 = set (order st2)"
      using extends_visited_order visit_extends(1)[OF r] Cons.prems(2) by blast
    from Cons.IH[OF r2 b a] show ?thesis .
  qed
qed

lemma visit_all_reach:
  "visit_all keys deps mk ns st = Inr st' \<Longrightarrow> set ns \<subseteq> set keys \<Longrightarrow>
     set (order st') \<subseteq> set (order st) \<union> {x. \<exists>r \<in> set ns. (r, x) \<in> (dep_edges keys deps)\<^sup>*}"
proof (induction ns arbitrary: st)
  case Nil
  then show ?case by simp
next
  case (Cons n ns)
  from Cons.prems(2) have nk: "n \<in> set keys" and sub: "set ns \<subseteq> set keys" by auto
  show ?case
  proof (cases "n \<in> visited st")
    case True
    with Cons.prems have r: "visit_all keys deps mk ns st = Inr st'" by simp
    from Cons.IH[OF r sub] show ?thesis by auto
  next
    case False
    with Cons.prems obtain st2 where r: "visit keys deps mk n st = Inr st2"
      and r2: "visit_all keys deps mk ns st2 = Inr st'"
      by (auto split: sum.splits)
    from visit_reach(1)[OF r nk] Cons.IH[OF r2 sub] show ?thesis by auto
  qed
qed

lemma visit_all_failure:
  "visit_all keys deps mk ns st = Inl e \<Longrightarrow> set ns \<subseteq> set keys \<Longrightarrow> visiting st = {} \<Longrightarrow>
     \<exists>x. e = mk x \<and> (x, x) \<in> (dep_edges keys deps)\<^sup>+"
proof (induction ns arbitrary: st)
  case Nil
  then show ?case by simp
next
  case (Cons n ns)
  from Cons.prems(2) have nk: "n \<in> set keys" and sub: "set ns \<subseteq> set keys" by auto
  show ?case
  proof (cases "n \<in> visited st")
    case True
    with Cons.prems have r: "visit_all keys deps mk ns st = Inl e" by simp
    from Cons.IH[OF r sub Cons.prems(3)] show ?thesis .
  next
    case False
    show ?thesis
    proof (cases "visit keys deps mk n st")
      case (Inl e')
      then have "e' = e" using Cons.prems(1) False by simp
      then show ?thesis using visit_failure(1)[OF Inl nk] Cons.prems(3) by simp
    next
      case (Inr st2)
      then have r2: "visit_all keys deps mk ns st2 = Inl e" using Cons.prems(1) False by simp
      have "visiting st2 = {}" using visit_extends(1)[OF Inr] Cons.prems(3) by (simp add: extends_def)
      from Cons.IH[OF r2 sub this] show ?thesis .
    qed
  qed
qed

lemma visit_all_append:
  "visit_all keys deps mk (ns @ ms) st = Inr st'' \<Longrightarrow>
     \<exists>st'. visit_all keys deps mk ns st = Inr st' \<and> visit_all keys deps mk ms st' = Inr st''"
  by (induction ns arbitrary: st) (auto split: sum.splits if_splits)

lemma dep_edges_reach_keys:
  "(r, x) \<in> (dep_edges keys deps)\<^sup>* \<Longrightarrow> r \<in> set keys \<Longrightarrow> x \<in> set keys"
  by (induction rule: rtrancl_induct) (auto simp: dep_edges_def)

lemma topological_order_success:
  assumes "topological_order keys deps mk = Inr xs"
  shows "dependencies_first keys deps xs"
proof -
  let ?st0 = "\<lparr> visited = {}, visiting = {}, order = [] \<rparr>"
  from assms obtain st where r: "visit_all keys deps mk keys ?st0 = Inr st" and xs: "xs = order st"
    by (auto simp: topological_order_def split: sum.splits)
  from visit_all_extends[OF r] have ex: "extends ?st0 st" and all: "set keys \<subseteq> visited st"
    by simp_all
  from ex have d: "distinct xs" and v: "visited st = set xs"
    by (auto simp: extends_def xs)
  from visit_all_reach[OF r subset_refl] have "set xs \<subseteq> set keys"
    using dep_edges_reach_keys by (fastforce simp: xs)
  with all v have eq: "set xs = set keys" by auto
  have df: "deps_first keys deps xs"
    using visit_all_deps_first[OF r] by (simp add: xs deps_first_def)
  have "precedes xs b a" if "(a, b) \<in> dep_edges keys deps" for a b
    using that df eq by (auto simp: dep_edges_def deps_first_def)
  with d eq show ?thesis by (auto simp: dependencies_first_def)
qed

lemma dependencies_first_acyclic:
  assumes "dependencies_first keys deps xs"
  shows "\<not> cyclic keys deps"
proof -
  have less: "position xs b < position xs a" if "(a, b) \<in> (dep_edges keys deps)\<^sup>+" for a b
    using that
  proof (induction rule: trancl_induct)
    case (base y)
    then show ?case using assms by (auto simp: dependencies_first_def precedes_def)
  next
    case (step y z)
    then have "position xs z < position xs y"
      using assms by (auto simp: dependencies_first_def precedes_def)
    with step.IH show ?case by simp
  qed
  show ?thesis unfolding cyclic_def using less by blast
qed

lemma topological_order_failure:
  assumes "topological_order keys deps mk = Inl e"
  shows "\<exists>x. e = mk x \<and> (x, x) \<in> (dep_edges keys deps)\<^sup>+"
proof -
  let ?st0 = "\<lparr> visited = {}, visiting = {}, order = [] \<rparr>"
  from assms have "visit_all keys deps mk keys ?st0 = Inl e"
    by (auto simp: topological_order_def split: sum.splits)
  from visit_all_failure[OF this subset_refl] show ?thesis by simp
qed

lemma keys_split: "n \<in> set keys \<Longrightarrow> \<exists>ks2. keys = takeWhile (\<lambda>x. x \<noteq> n) keys @ n # ks2"
  by (induction keys) auto

lemma topological_order_registration:
  assumes "topological_order keys deps mk = Inr xs"
  shows "registration_order_kept keys deps xs"
  unfolding registration_order_kept_def
proof (intro allI impI)
  fix m n
  assume p: "precedes xs m n"
  let ?st0 = "\<lparr> visited = {}, visiting = {}, order = [] \<rparr>"
  let ?E = "dep_edges keys deps"
  from assms obtain st where r: "visit_all keys deps mk keys ?st0 = Inr st" and xs: "xs = order st"
    by (auto simp: topological_order_def split: sum.splits)
  from topological_order_success[OF assms] have eq: "set xs = set keys"
    by (simp add: dependencies_first_def)
  from p have "n \<in> set xs" by (simp add: precedes_def)
  then have nk: "n \<in> set keys" using eq by simp
  let ?ks1 = "takeWhile (\<lambda>x. x \<noteq> n) keys"
  from keys_split[OF nk] obtain ks2 where ks: "keys = ?ks1 @ n # ks2" by blast
  then have ks': "keys = (?ks1 @ [n]) @ ks2" by simp
  from r obtain st' where r1: "visit_all keys deps mk (?ks1 @ [n]) ?st0 = Inr st'"
    and r2: "visit_all keys deps mk ks2 st' = Inr st"
    using visit_all_append[of keys deps mk "?ks1 @ [n]" ks2 ?st0 st] ks' by metis
  from visit_all_extends[OF r1] have ex1: "extends ?st0 st'" and "n \<in> visited st'" by auto
  then have nin: "n \<in> set (order st')" by (auto simp: extends_def)
  from visit_all_extends[OF r2] obtain zs where "order st = order st' @ zs"
    by (auto simp: extends_def)
  with p xs have "precedes (order st' @ zs) m n" by simp
  from precedes_prefix[OF this nin] have min: "m \<in> set (order st')" .
  have sub: "set (?ks1 @ [n]) \<subseteq> set keys" using nk by (auto dest: set_takeWhileD)
  from visit_all_reach[OF r1 sub] min obtain r where
    rin: "r \<in> set (?ks1 @ [n])" and reach: "(r, m) \<in> ?E\<^sup>*" by auto
  have "position keys r \<le> position keys n"
  proof (cases "r = n")
    case True
    then show ?thesis by simp
  next
    case False
    with rin have r1: "r \<in> set ?ks1" by simp
    have "position keys r = position ?ks1 r"
      using position_append[OF r1, of "n # ks2"] ks by simp
    also have "\<dots> < length ?ks1" using r1 by (rule position_less)
    also have "length ?ks1 = position keys n" by (simp add: position_def)
    finally show ?thesis by simp
  qed
  moreover have "r \<in> set keys" using rin sub by blast
  ultimately show "\<exists>r \<in> set keys. position keys r \<le> position keys n \<and> (r, m) \<in> ?E\<^sup>*"
    using reach by blast
qed

lemma topological_order_correct:
  "(\<not> cyclic keys deps \<longrightarrow>
      (\<exists>xs. topological_order keys deps mk = Inr xs \<and> dependencies_first keys deps xs
            \<and> registration_order_kept keys deps xs))
   \<and> (cyclic keys deps \<longrightarrow>
      (\<exists>x. topological_order keys deps mk = Inl (mk x) \<and> (x, x) \<in> (dep_edges keys deps)\<^sup>+))"
proof (cases "topological_order keys deps mk")
  case (Inl e)
  from topological_order_failure[OF Inl] obtain x where
    x: "e = mk x" "(x, x) \<in> (dep_edges keys deps)\<^sup>+" by blast
  then have "cyclic keys deps" unfolding cyclic_def by blast
  with Inl x show ?thesis by auto
next
  case (Inr xs)
  from topological_order_success[OF Inr] have df: "dependencies_first keys deps xs" .
  from dependencies_first_acyclic[OF df] have "\<not> cyclic keys deps" .
  with Inr df topological_order_registration[OF Inr] show ?thesis by auto
qed

lemmas manager_eval =
  register_all_def registerService_def calculateOrder_def updateDependencyGraph_def
  topological_order_def visit.simps visit_deps.simps Map_keys_def graph_deps_def
  Set_of_def Set_add_def svc_def new_service_def new_manager_def mlog_def
  circular_ServiceError_def

lemma map_of_Map_set: "map_of (Map_set k v ps) k = Some v"
  by (induction ps) auto

lemma set_foldl_Set_add: "set (foldl (\<lambda>acc x. Set_add x acc) acc xs) = set acc \<union> set xs"
  by (induction xs arbitrary: acc) (auto simp: Set_add_def)

lemma set_Set_of: "set (Set_of xs) = set xs"
  by (simp add: Set_of_def set_foldl_Set_add)

lemma calculateOrder_graph: "dependencyGraph (snd (calculateOrder m)) = dependencyGraph m"
  by (simp add: calculateOrder_def split: sum.splits)

lemma registerService_graph:
  "graph_deps (dependencyGraph (snd (registerService s m))) (name s) = Set_of (dependencies s)"
proof -
  let ?m1 = "updateDependencyGraph s (m\<lparr> services := Map_set (name s) s (services m) \<rparr>)"
  have "dependencyGraph (snd (registerService s m)) = dependencyGraph ?m1"
    using calculateOrder_graph[of ?m1]
    by (auto simp: registerService_def mlog_def split: prod.splits sum.splits)
  then show ?thesis
    by (simp add: updateDependencyGraph_def graph_deps_def map_of_Map_set)
qed

text \<open>
  C1, as the code has it. When the dependency graph restricted to the registered names
  is acyclic, \<^verbatim>\<open>calculateOrder\<close> succeeds and stores an order that lists every
  registered service once, with every registered dependency before each service that
  declares it, and its reverse as the stop order; a service stands before another
  only if it is, or is reached along dependencies from, a service registered no later
  than that other. When the graph has a cycle, \<^verbatim>\<open>calculateOrder\<close> throws a
  \<^verbatim>\<open>ServiceError\<close> whose message names a service on a cycle, and stores nothing. The
  graph entry that \<^verbatim>\<open>registerService\<close> writes for a service holds the dependencies the
  service declares. \<^verbatim>\<open>calculateInitializationOrder\<close> does the same for components, and
  throws an \<^verbatim>\<open>InitializationError\<close>.
\<close>

theorem dependency_order:
  "(\<not> cyclic (Map_keys (services m)) (graph_deps (dependencyGraph m)) \<longrightarrow>
      (\<exists>xs. calculateOrder m = (Inr (), m\<lparr> startOrder := xs, stopOrder := rev xs \<rparr>)
         \<and> dependencies_first (Map_keys (services m)) (graph_deps (dependencyGraph m)) xs
         \<and> registration_order_kept (Map_keys (services m)) (graph_deps (dependencyGraph m)) xs))
   \<and> (cyclic (Map_keys (services m)) (graph_deps (dependencyGraph m)) \<longrightarrow>
      (\<exists>x. calculateOrder m
            = (Inl (Exn ServiceError (''Circular dependency detected involving '' @ x)), m)
         \<and> (x, x) \<in> (dep_edges (Map_keys (services m)) (graph_deps (dependencyGraph m)))\<^sup>+))
   \<and> set (graph_deps (dependencyGraph (snd (registerService s m))) (name s))
       = set (dependencies s)
   \<and> (\<not> cyclic (Map_keys (components bi)) (component_deps (components bi)) \<longrightarrow>
      (\<exists>xs. calculateInitializationOrder bi = Inr xs
         \<and> dependencies_first (Map_keys (components bi)) (component_deps (components bi)) xs
         \<and> registration_order_kept (Map_keys (components bi))
              (component_deps (components bi)) xs))
   \<and> (cyclic (Map_keys (components bi)) (component_deps (components bi)) \<longrightarrow>
      (\<exists>x. calculateInitializationOrder bi
            = Inl (Exn InitializationError (''Circular dependency detected involving '' @ x))
         \<and> (x, x) \<in> (dep_edges (Map_keys (components bi)) (component_deps (components bi)))\<^sup>+))"
proof -
  note a = topological_order_correct[of "Map_keys (services m)" "graph_deps (dependencyGraph m)"
      circular_ServiceError]
  note b = topological_order_correct[of "Map_keys (components bi)" "component_deps (components bi)"
      circular_InitializationError]
  have 1: "\<not> cyclic (Map_keys (services m)) (graph_deps (dependencyGraph m)) \<longrightarrow>
      (\<exists>xs. calculateOrder m = (Inr (), m\<lparr> startOrder := xs, stopOrder := rev xs \<rparr>)
         \<and> dependencies_first (Map_keys (services m)) (graph_deps (dependencyGraph m)) xs
         \<and> registration_order_kept (Map_keys (services m)) (graph_deps (dependencyGraph m)) xs)"
    using a by (auto simp: calculateOrder_def)
  have 2: "cyclic (Map_keys (services m)) (graph_deps (dependencyGraph m)) \<longrightarrow>
      (\<exists>x. calculateOrder m
            = (Inl (Exn ServiceError (''Circular dependency detected involving '' @ x)), m)
         \<and> (x, x) \<in> (dep_edges (Map_keys (services m)) (graph_deps (dependencyGraph m)))\<^sup>+)"
    using a by (auto simp: calculateOrder_def circular_ServiceError_def)
  have 3: "set (graph_deps (dependencyGraph (snd (registerService s m))) (name s))
       = set (dependencies s)"
    by (simp add: registerService_graph set_Set_of)
  have 4: "\<not> cyclic (Map_keys (components bi)) (component_deps (components bi)) \<longrightarrow>
      (\<exists>xs. calculateInitializationOrder bi = Inr xs
         \<and> dependencies_first (Map_keys (components bi)) (component_deps (components bi)) xs
         \<and> registration_order_kept (Map_keys (components bi))
              (component_deps (components bi)) xs)"
    using b by (auto simp: calculateInitializationOrder_def)
  have 5: "cyclic (Map_keys (components bi)) (component_deps (components bi)) \<longrightarrow>
      (\<exists>x. calculateInitializationOrder bi
            = Inl (Exn InitializationError (''Circular dependency detected involving '' @ x))
         \<and> (x, x) \<in> (dep_edges (Map_keys (components bi)) (component_deps (components bi)))\<^sup>+)"
    using b by (auto simp: calculateInitializationOrder_def circular_InitializationError_def)
  from 1 2 3 4 5 show ?thesis by blast
qed

lemma chain_order:
  "calculateOrder chain_manager
     = (Inr (), chain_manager\<lparr> startOrder := [''A'', ''B'', ''C''],
                               stopOrder := [''C'', ''B'', ''A''] \<rparr>)"
  by (simp add: chain_manager_def manager_eval)

lemma chain_acyclic:
  "\<not> cyclic (Map_keys (services chain_manager)) (graph_deps (dependencyGraph chain_manager))"
proof -
  have "topological_order (Map_keys (services chain_manager))
          (graph_deps (dependencyGraph chain_manager)) circular_ServiceError
        = Inr [''A'', ''B'', ''C'']"
    by (simp add: chain_manager_def manager_eval)
  from dependencies_first_acyclic[OF topological_order_success[OF this]] show ?thesis .
qed

lemma cycle_cyclic:
  "cyclic (Map_keys (services cycle_manager)) (graph_deps (dependencyGraph cycle_manager))"
proof -
  have "topological_order (Map_keys (services cycle_manager))
          (graph_deps (dependencyGraph cycle_manager)) circular_ServiceError
        = Inl (circular_ServiceError ''X'')"
    by (simp add: cycle_manager_def manager_eval)
  from topological_order_failure[OF this] show ?thesis
    by (auto simp: cyclic_def)
qed

lemma core_order:
  "calculateInitializationOrder core_initializer = Inr [''logger'', ''eventBus'', ''config'']"
  by (simp add: core_initializer_def calculateInitializationOrder_def topological_order_def
      visit.simps visit_deps.simps Map_keys_def component_deps_def registerComponent_def
      new_initializer_def createLoggerComponent_def createEventBusComponent_def
      config_component_def)

lemma core_acyclic:
  "\<not> cyclic (Map_keys (components core_initializer))
       (component_deps (components core_initializer))"
  using dependencies_first_acyclic[OF topological_order_success] core_order
  unfolding calculateInitializationOrder_def by blast

lemma cycle_initializer_cyclic:
  "cyclic (Map_keys (components cycle_initializer))
     (component_deps (components cycle_initializer))"
proof -
  have "topological_order (Map_keys (components cycle_initializer))
          (component_deps (components cycle_initializer)) circular_InitializationError
        = Inl (circular_InitializationError ''X'')"
    by (simp add: cycle_initializer_def topological_order_def visit.simps visit_deps.simps
        Map_keys_def component_deps_def registerComponent_def new_initializer_def)
  from topological_order_failure[OF this] show ?thesis
    by (auto simp: cyclic_def)
qed

theorem dependency_order_witness:
  "dependencies_first (Map_keys (services chain_manager))
     (graph_deps (dependencyGraph chain_manager)) [''A'', ''B'', ''C'']
   \<and> registration_order_kept (Map_keys (services chain_manager))
       (graph_deps (dependencyGraph chain_manager)) [''A'', ''B'', ''C'']
   \<and> (\<exists>x. calculateOrder cycle_manager
            = (Inl (Exn ServiceError (''Circular dependency detected involving '' @ x)),
               cycle_manager)
         \<and> (x, x) \<in> (dep_edges (Map_keys (services cycle_manager))
                        (graph_deps (dependencyGraph cycle_manager)))\<^sup>+)
   \<and> dependencies_first (Map_keys (components core_initializer))
       (component_deps (components core_initializer)) [''logger'', ''eventBus'', ''config'']
   \<and> (\<exists>x. calculateInitializationOrder cycle_initializer
            = Inl (Exn InitializationError (''Circular dependency detected involving '' @ x))
         \<and> (x, x) \<in> (dep_edges (Map_keys (components cycle_initializer))
                        (component_deps (components cycle_initializer)))\<^sup>+)"
proof -
  from dependency_order[of chain_manager "svc ''A'' []" core_initializer]
    chain_acyclic core_acyclic
  obtain xs ys where xs: "calculateOrder chain_manager
        = (Inr (), chain_manager\<lparr> startOrder := xs, stopOrder := rev xs \<rparr>)"
    and p: "dependencies_first (Map_keys (services chain_manager))
              (graph_deps (dependencyGraph chain_manager)) xs"
       "registration_order_kept (Map_keys (services chain_manager))
              (graph_deps (dependencyGraph chain_manager)) xs"
    and ys: "calculateInitializationOrder core_initializer = Inr ys"
    and q: "dependencies_first (Map_keys (components core_initializer))
              (component_deps (components core_initializer)) ys"
    by blast
  from xs chain_order have
    "startOrder (chain_manager\<lparr> startOrder := xs, stopOrder := rev xs \<rparr>)
      = startOrder (chain_manager\<lparr> startOrder := [''A'', ''B'', ''C''],
                                   stopOrder := [''C'', ''B'', ''A''] \<rparr>)"
    by simp
  then have x: "xs = [''A'', ''B'', ''C'']" by simp
  from ys core_order have y: "ys = [''logger'', ''eventBus'', ''config'']" by simp
  from dependency_order[of cycle_manager "svc ''A'' []" cycle_initializer]
    cycle_cyclic cycle_initializer_cyclic
  have "\<exists>x. calculateOrder cycle_manager
            = (Inl (Exn ServiceError (''Circular dependency detected involving '' @ x)),
               cycle_manager)
         \<and> (x, x) \<in> (dep_edges (Map_keys (services cycle_manager))
                        (graph_deps (dependencyGraph cycle_manager)))\<^sup>+"
    and "\<exists>x. calculateInitializationOrder cycle_initializer
            = Inl (Exn InitializationError (''Circular dependency detected involving '' @ x))
         \<and> (x, x) \<in> (dep_edges (Map_keys (components cycle_initializer))
                        (component_deps (components cycle_initializer)))\<^sup>+"
    by blast+
  with p q x y show ?thesis by blast
qed

text \<open>
  The claim C1 says that ties are broken by registration order and that a cycle gives a
  \<^verbatim>\<open>CyclicDependencyError\<close>. Register \<open>A\<close> depending on \<open>C\<close>, then \<open>B\<close>, then \<open>C\<close>, the
  last two without dependencies: \<open>B\<close> is registered before \<open>C\<close> and neither depends on
  the other, yet the order is \<open>C\<close>, \<open>A\<close>, \<open>B\<close>. And the error thrown for the cycle of
  \<open>X\<close> and \<open>Y\<close> is a \<^verbatim>\<open>ServiceError\<close>.
\<close>

theorem dependency_order_counterexample:
  "startOrder tie_manager = [''C'', ''A'', ''B'']
   \<and> Map_keys (services tie_manager) = [''A'', ''B'', ''C'']
   \<and> graph_deps (dependencyGraph tie_manager) ''B'' = []
   \<and> graph_deps (dependencyGraph tie_manager) ''C'' = []
   \<and> position (Map_keys (services tie_manager)) ''B''
       < position (Map_keys (services tie_manager)) ''C''
   \<and> precedes (startOrder tie_manager) ''C'' ''B''
   \<and> fst (calculateOrder cycle_manager)
       = Inl (Exn ServiceError ''Circular dependency detected involving X'')
   \<and> class_name ServiceError \<noteq> ''CyclicDependencyError''"
  by (simp add: tie_manager_def cycle_manager_def manager_eval position_def precedes_def)

section \<open>Properties of the service manager\<close>

lemma map_of_Map_set_other: "k \<noteq> x \<Longrightarrow> map_of (Map_set k v ps) x = map_of ps x"
  by (induction ps) auto

text \<open>
  The handlers only write log lines. \<^verbatim>\<open>stop()\<close> emits nothing that they handle; a
  \<^verbatim>\<open>start()\<close> that throws has emitted the error event, unless it threw at its guard.
\<close>

lemma setupEventHandlers_fields:
  "services (setupEventHandlers e m) = services m"
  "called (setupEventHandlers e m) = called m"
  "startOrder (setupEventHandlers e m) = startOrder m"
  "stopOrder (setupEventHandlers e m) = stopOrder m"
  "dependencyGraph (setupEventHandlers e m) = dependencyGraph m"
  "manager_eventBus (setupEventHandlers e m) = manager_eventBus m"
  by (cases e; simp add: mlog_def)+

lemma handlers_fields:
  "services (foldl (\<lambda>m e. setupEventHandlers e m) m es) = services m"
  "called (foldl (\<lambda>m e. setupEventHandlers e m) m es) = called m"
  "startOrder (foldl (\<lambda>m e. setupEventHandlers e m) m es) = startOrder m"
  "stopOrder (foldl (\<lambda>m e. setupEventHandlers e m) m es) = stopOrder m"
  "dependencyGraph (foldl (\<lambda>m e. setupEventHandlers e m) m es) = dependencyGraph m"
  "manager_eventBus (foldl (\<lambda>m e. setupEventHandlers e m) m es) = manager_eventBus m"
  by (induction es arbitrary: m; simp add: setupEventHandlers_fields)+

lemma deliver_fields:
  "services (deliver a b m) = services m"
  "called (deliver a b m) = called m"
  "startOrder (deliver a b m) = startOrder m"
  "stopOrder (deliver a b m) = stopOrder m"
  "dependencyGraph (deliver a b m) = dependencyGraph m"
  "manager_eventBus (deliver a b m) = manager_eventBus m"
  by (simp_all add: deliver_def handlers_fields)

lemma stop_events:
  "events (snd (stop impl s)) = events s
   \<or> events (snd (stop impl s)) = events s @ [service_stopped (name s)]"
  by (auto simp: lifecycle_defs
      split: option.splits outcome.splits raced.splits prod.splits sum.splits)

lemma deliver_stop: "stop impl s = (r, s') \<Longrightarrow> deliver s s' m = m"
  using stop_events[of impl s] by (auto simp: deliver_def)

lemma start_eventBus: "eventBus (snd (start impl s)) = eventBus s"
  by (auto simp: lifecycle_defs
      split: option.splits outcome.splits raced.splits prod.splits sum.splits)

lemma start_failure_events:
  "isl (fst (start impl s)) \<Longrightarrow>
     \<exists>msg. drop (length (events s)) (events (snd (start impl s)))
              = (if state s = STARTING then [] else [service_error (name s) msg])"
  by (auto simp: lifecycle_defs
      split: if_splits option.splits outcome.splits raced.splits prod.splits sum.splits)

lemma deliver_start_failure:
  assumes "isl (fst (start impl s))"
  shows "mlogged (deliver s (snd (start impl s)) m)
           = mlogged m
             @ (if eventBus s = manager_eventBus m \<and> state s \<noteq> STARTING
                then [(Warn, ''Service error event received'', name s)] else [])"
proof -
  from start_failure_events[OF assms] obtain msg where
    "drop (length (events s)) (events (snd (start impl s)))
       = (if state s = STARTING then [] else [service_error (name s) msg])" by blast
  then show ?thesis by (simp add: deliver_def start_eventBus mlog_def)
qed

lemma stop_leaves_running:
  "state s = RUNNING \<Longrightarrow>
     state (snd (stop impl s)) = (if isl (fst (stop impl s)) then ERROR else STOPPED)"
  by (auto simp: lifecycle_defs
      split: option.splits outcome.splits raced.splits prod.splits sum.splits)

lemma stop_service_fields:
  "services (stop_service simpl msg n s m) = Map_set n (snd (stop (simpl n) s)) (services m)"
  "called (stop_service simpl msg n s m) = called m @ [called_stop n]"
  "startOrder (stop_service simpl msg n s m) = startOrder m"
  "stopOrder (stop_service simpl msg n s m) = stopOrder m"
  "dependencyGraph (stop_service simpl msg n s m) = dependencyGraph m"
  "manager_eventBus (stop_service simpl msg n s m) = manager_eventBus m"
  "mlogged (stop_service simpl msg n s m)
     = mlogged m @ (if isl (fst (stop (simpl n) s)) then [(Err, msg, n)] else [])"
  by (auto simp: stop_service_def mlog_def deliver_stop split: prod.splits sum.splits)

lemma running_stop_service:
  "x \<noteq> n \<Longrightarrow> running (stop_service simpl msg n s m) x = running m x"
  by (simp add: running_def stop_service_fields map_of_Map_set_other)

lemma stop_fails_stop_service:
  "x \<noteq> n \<Longrightarrow> stop_fails simpl (stop_service simpl msg n s m) x = stop_fails simpl m x"
  by (simp add: stop_fails_def stop_service_fields map_of_Map_set_other)

lemma stop_running_orders:
  "startOrder (stop_running simpl msg ns m) = startOrder m"
  "stopOrder (stop_running simpl msg ns m) = stopOrder m"
  "dependencyGraph (stop_running simpl msg ns m) = dependencyGraph m"
  by (induction ns arbitrary: m; simp add: stop_service_fields split: option.splits)+

lemma stop_running_bus:
  "manager_eventBus (stop_running simpl msg ns m) = manager_eventBus m"
  by (induction ns arbitrary: m) (simp_all add: stop_service_fields split: option.splits)

lemma stop_running_others:
  "x \<notin> set ns \<Longrightarrow> map_of (services (stop_running simpl msg ns m)) x = map_of (services m) x"
  by (induction ns arbitrary: m)
     (auto simp: stop_service_fields map_of_Map_set_other split: option.splits)

lemma stop_running_services:
  "distinct ns \<Longrightarrow> x \<in> set ns \<Longrightarrow>
     map_of (services (stop_running simpl msg ns m)) x
       = map_option (\<lambda>sx. if state sx = RUNNING then snd (stop (simpl x) sx) else sx)
           (map_of (services m) x)"
proof (induction ns arbitrary: m)
  case Nil
  then show ?case by simp
next
  case (Cons n ns)
  then have d: "distinct ns" and nn: "n \<notin> set ns" by auto
  show ?case
  proof (cases "x = n")
    case True
    then show ?thesis using nn
      by (auto simp: stop_running_others stop_service_fields map_of_Map_set
          split: option.splits)
  next
    case False
    then have x: "x \<in> set ns" using Cons.prems(2) by simp
    show ?thesis using False Cons.IH[OF d x]
      by (auto simp: stop_service_fields map_of_Map_set_other split: option.splits)
  qed
qed

lemma stop_running_called:
  "distinct ns \<Longrightarrow>
     called (stop_running simpl msg ns m) = called m @ map called_stop (filter (running m) ns)"
proof (induction ns arbitrary: m)
  case Nil
  then show ?case by simp
next
  case (Cons n ns)
  then have d: "distinct ns" and nn: "n \<notin> set ns" by auto
  show ?case
  proof (cases "running m n")
    case True
    then obtain s where s: "map_of (services m) n = Some s" "state s = RUNNING"
      by (auto simp: running_def split: option.splits)
    have "x \<in> set ns \<Longrightarrow> running (stop_service simpl msg n s m) x = running m x" for x
      using nn by (intro running_stop_service) auto
    then have "filter (running (stop_service simpl msg n s m)) ns = filter (running m) ns"
      by (intro filter_cong) auto
    then show ?thesis using s True Cons.IH[OF d, of "stop_service simpl msg n s m"]
      by (simp add: stop_service_fields)
  next
    case False
    then show ?thesis using Cons.IH[OF d, of m]
      by (auto simp: running_def split: option.splits)
  qed
qed

lemma stop_running_logged:
  "distinct ns \<Longrightarrow>
     mlogged (stop_running simpl msg ns m)
       = mlogged m @ map (\<lambda>x. (Err, msg, x)) (filter (stop_fails simpl m) ns)"
proof (induction ns arbitrary: m)
  case Nil
  then show ?case by simp
next
  case (Cons n ns)
  then have d: "distinct ns" and nn: "n \<notin> set ns" by auto
  show ?case
  proof (cases "running m n")
    case True
    then obtain s where s: "map_of (services m) n = Some s" "state s = RUNNING"
      by (auto simp: running_def split: option.splits)
    have "x \<in> set ns \<Longrightarrow> stop_fails simpl (stop_service simpl msg n s m) x = stop_fails simpl m x"
      for x
      using nn by (intro stop_fails_stop_service) auto
    then have "filter (stop_fails simpl (stop_service simpl msg n s m)) ns
        = filter (stop_fails simpl m) ns"
      by (intro filter_cong) auto
    moreover have "stop_fails simpl m n = isl (fst (stop (simpl n) s))"
      using s by (simp add: stop_fails_def)
    ultimately show ?thesis using s Cons.IH[OF d, of "stop_service simpl msg n s m"]
      by (simp add: stop_service_fields)
  next
    case False
    then show ?thesis using Cons.IH[OF d, of m]
      by (auto simp: running_def stop_fails_def split: option.splits)
  qed
qed

lemma startAll_loop_append:
  "startAll_loop timpl simpl (xs @ ys) m =
     (case startAll_loop timpl simpl xs m of
        (Inl e, m') \<Rightarrow> (Inl e, m')
      | (Inr u, m') \<Rightarrow> startAll_loop timpl simpl ys m')"
  by (induction xs arbitrary: m) (auto simp: Let_def split: option.splits prod.splits sum.splits)

lemma stopStartedServices_orders:
  "startOrder (stopStartedServices simpl n m) = startOrder m"
  "stopOrder (stopStartedServices simpl n m) = stopOrder m"
  "dependencyGraph (stopStartedServices simpl n m) = dependencyGraph m"
  by (simp_all add: stopStartedServices_def Let_def stop_running_orders)

lemma startAll_loop_orders:
  "startOrder (snd (startAll_loop timpl simpl ns m)) = startOrder m
   \<and> stopOrder (snd (startAll_loop timpl simpl ns m)) = stopOrder m
   \<and> dependencyGraph (snd (startAll_loop timpl simpl ns m)) = dependencyGraph m"
  by (induction ns arbitrary: m)
     (auto simp: Let_def mlog_def stopStartedServices_orders deliver_fields
        split: option.splits prod.splits sum.splits)

lemma startAll_loop_bus:
  "manager_eventBus (snd (startAll_loop timpl simpl ns m)) = manager_eventBus m"
  by (induction ns arbitrary: m)
     (auto simp: Let_def mlog_def stopStartedServices_def stop_running_bus deliver_fields
        split: option.splits prod.splits sum.splits)

lemma startAll_loop_others:
  "startAll_loop timpl simpl ns m = (Inr u, m') \<Longrightarrow> x \<notin> set ns \<Longrightarrow>
     map_of (services m') x = map_of (services m) x"
proof (induction ns arbitrary: m)
  case Nil
  then show ?case by simp
next
  case (Cons n ns)
  then have xn: "n \<noteq> x" and xs: "x \<notin> set ns" by auto
  show ?case
  proof (cases "map_of (services m) n")
    case None
    with Cons.prems(1) Cons.IH[OF _ xs] show ?thesis by simp
  next
    case (Some s)
    obtain r s' where st: "start (timpl n) s = (r, s')" by (cases "start (timpl n) s")
    let ?m = "deliver s s'
                (m\<lparr> services := Map_set n s' (services m),
                    called := called m @ [called_start n] \<rparr>)"
    show ?thesis
    proof (cases r)
      case (Inr u')
      with Cons.prems(1) Some st have "startAll_loop timpl simpl ns ?m = (Inr u, m')" by simp
      from Cons.IH[OF this xs] xn show ?thesis
        by (simp add: map_of_Map_set_other deliver_fields)
    next
      case (Inl e)
      with Cons.prems(1) Some st have
        "startAll_loop timpl simpl ns (mlog Err ''Failed to start service'' n ?m) = (Inr u, m')"
        by (auto simp: Let_def split: if_splits)
      from Cons.IH[OF this xs] xn show ?thesis
        by (simp add: map_of_Map_set_other mlog_def deliver_fields)
    qed
  qed
qed

lemma indexOf_append: "n \<notin> set pre \<Longrightarrow> indexOf (pre @ n # post) n = int (length pre)"
  by (induction pre) (auto simp: Let_def)

lemma start_isRequired: "isRequired (snd (start impl s)) = isRequired s"
  by (auto simp: lifecycle_defs
      split: option.splits outcome.splits raced.splits prod.splits sum.splits)

lemma startAll_required_failure:
  assumes ord: "startOrder m = pre @ n # post" and d: "distinct (pre @ n # post)"
    and pre: "startAll_loop timpl simpl pre
                (mlog Info ''Starting all services in dependency order...'' [] m) = (Inr (), m1)"
    and s: "map_of (services m1) n = Some s"
    and fails: "isl (fst (start (timpl n) s))" and req: "isRequired s"
  shows "fst (startAll timpl simpl m)
           = Inl (Exn ServiceError (''Required service '' @ n @ '' failed to start''))"
    and "called (snd (startAll timpl simpl m))
           = called m1 @ [called_start n] @ map called_stop (filter (running m1) (rev pre))"
    and "\<forall>x \<in> set pre.
           map_of (services (snd (startAll timpl simpl m))) x
             = map_option (\<lambda>sx. if state sx = RUNNING then snd (stop (simpl x) sx) else sx)
                 (map_of (services m1) x)"
    and "\<forall>x \<in> set pre. running m1 x \<longrightarrow>
           map_option state (map_of (services (snd (startAll timpl simpl m))) x)
             = Some (if stop_fails simpl m1 x then ERROR else STOPPED)"
    and "\<forall>x \<in> set pre. \<not> running (snd (startAll timpl simpl m)) x"
    and "map_of (services (snd (startAll timpl simpl m))) n = Some (snd (start (timpl n) s))"
    and "mlogged (snd (startAll timpl simpl m))
           = mlogged m1
             @ (if eventBus s = manager_eventBus m \<and> state s \<noteq> STARTING
                then [(Warn, ''Service error event received'', name s)] else [])
             @ [(Err, ''Failed to start service'', n)]
             @ map (\<lambda>x. (Err, ''Failed to stop service during cleanup'', x))
                 (filter (stop_fails simpl m1) (rev pre))"
    and "\<forall>x \<in> set post. map_of (services (snd (startAll timpl simpl m))) x = map_of (services m) x"
proof -
  let ?m0 = "mlog Info ''Starting all services in dependency order...'' [] m"
  obtain e s' where st: "start (timpl n) s = (Inl e, s')"
    using fails by (cases "start (timpl n) s") (auto simp: isl_def)
  have s': "s' = snd (start (timpl n) s)" using st by simp
  have req': "isRequired s'" using start_isRequired[of "timpl n" s] st req by simp
  let ?m2 = "mlog Err ''Failed to start service'' n
               (deliver s s'
                 (m1\<lparr> services := Map_set n s' (services m1),
                      called := called m1 @ [called_start n] \<rparr>))"
  let ?final = "stop_running simpl ''Failed to stop service during cleanup'' (rev pre) ?m2"
  have o1: "startOrder m1 = pre @ n # post"
    using startAll_loop_orders[of timpl simpl pre ?m0] pre ord by (simp add: mlog_def)
  have bus: "manager_eventBus m1 = manager_eventBus m"
    using startAll_loop_bus[of timpl simpl pre ?m0] pre by (simp add: mlog_def)
  have npre: "n \<notin> set pre" and dpre: "distinct (rev pre)" using d by auto
  have rb: "stopStartedServices simpl n ?m2 = ?final"
    using o1 npre by (simp add: stopStartedServices_def indexOf_append mlog_def deliver_fields)
  have loop: "startAll_loop timpl simpl (pre @ n # post) ?m0
      = (Inl (Exn ServiceError (''Required service '' @ n @ '' failed to start'')), ?final)"
    using pre s st req' rb by (simp add: startAll_loop_append Let_def)
  have res: "startAll timpl simpl m
      = (Inl (Exn ServiceError (''Required service '' @ n @ '' failed to start'')), ?final)"
    using loop ord by (simp add: startAll_def)
  show "fst (startAll timpl simpl m)
           = Inl (Exn ServiceError (''Required service '' @ n @ '' failed to start''))"
    by (simp add: res)
  have other: "x \<in> set (rev pre) \<Longrightarrow> map_of (services ?m2) x = map_of (services m1) x" for x
  proof -
    assume "x \<in> set (rev pre)"
    then have "n \<noteq> x" using npre by auto
    then show ?thesis by (simp add: mlog_def map_of_Map_set_other deliver_fields)
  qed
  have run: "x \<in> set (rev pre) \<Longrightarrow> running ?m2 x = running m1 x" for x
    unfolding running_def using other by simp
  have sf: "x \<in> set (rev pre) \<Longrightarrow> stop_fails simpl ?m2 x = stop_fails simpl m1 x" for x
    unfolding stop_fails_def using other by simp
  have "filter (running ?m2) (rev pre) = filter (running m1) (rev pre)"
    using run by (intro filter_cong) auto
  then show "called (snd (startAll timpl simpl m))
           = called m1 @ [called_start n] @ map called_stop (filter (running m1) (rev pre))"
    by (simp add: res stop_running_called[OF dpre] mlog_def deliver_fields)
  have svc: "map_of (services (snd (startAll timpl simpl m))) x
             = map_option (\<lambda>sx. if state sx = RUNNING then snd (stop (simpl x) sx) else sx)
                 (map_of (services m1) x)" if "x \<in> set pre" for x
  proof -
    have x: "x \<in> set (rev pre)" using that by simp
    show ?thesis using stop_running_services[OF dpre x, of simpl _ ?m2] other[OF x]
      by (simp add: res)
  qed
  then show "\<forall>x \<in> set pre.
           map_of (services (snd (startAll timpl simpl m))) x
             = map_option (\<lambda>sx. if state sx = RUNNING then snd (stop (simpl x) sx) else sx)
                 (map_of (services m1) x)" by blast
  show "\<forall>x \<in> set pre. running m1 x \<longrightarrow>
           map_option state (map_of (services (snd (startAll timpl simpl m))) x)
             = Some (if stop_fails simpl m1 x then ERROR else STOPPED)"
  proof (intro ballI impI)
    fix x assume x: "x \<in> set pre" and r: "running m1 x"
    from r obtain sx where sx: "map_of (services m1) x = Some sx" "state sx = RUNNING"
      by (auto simp: running_def split: option.splits)
    show "map_option state (map_of (services (snd (startAll timpl simpl m))) x)
             = Some (if stop_fails simpl m1 x then ERROR else STOPPED)"
      using svc[OF x] sx stop_leaves_running[OF sx(2), of "simpl x"]
      by (simp add: stop_fails_def)
  qed
  show "\<forall>x \<in> set pre. \<not> running (snd (startAll timpl simpl m)) x"
  proof
    fix x assume x: "x \<in> set pre"
    show "\<not> running (snd (startAll timpl simpl m)) x"
    proof (cases "map_of (services m1) x")
      case None
      then show ?thesis using svc[OF x] by (simp add: running_def)
    next
      case (Some sx)
      then show ?thesis using svc[OF x] stop_leaves_running[of sx "simpl x"]
        by (simp add: running_def)
    qed
  qed
  have nrev: "n \<notin> set (rev pre)" using npre by simp
  show "map_of (services (snd (startAll timpl simpl m))) n = Some (snd (start (timpl n) s))"
    using s' by (simp add: res stop_running_others[OF nrev] mlog_def deliver_fields map_of_Map_set)
  have "filter (stop_fails simpl ?m2) (rev pre) = filter (stop_fails simpl m1) (rev pre)"
    using sf by (intro filter_cong) auto
  moreover have "mlogged ?m2
      = mlogged m1
        @ (if eventBus s = manager_eventBus m \<and> state s \<noteq> STARTING
           then [(Warn, ''Service error event received'', name s)] else [])
        @ [(Err, ''Failed to start service'', n)]"
    using deliver_start_failure[OF fails,
        of "m1\<lparr> services := Map_set n s' (services m1),
                called := called m1 @ [called_start n] \<rparr>"] bus
    by (simp add: mlog_def s')
  ultimately show "mlogged (snd (startAll timpl simpl m))
           = mlogged m1
             @ (if eventBus s = manager_eventBus m \<and> state s \<noteq> STARTING
                then [(Warn, ''Service error event received'', name s)] else [])
             @ [(Err, ''Failed to start service'', n)]
             @ map (\<lambda>x. (Err, ''Failed to stop service during cleanup'', x))
                 (filter (stop_fails simpl m1) (rev pre))"
    by (simp add: res stop_running_logged[OF dpre])
  show "\<forall>x \<in> set post. map_of (services (snd (startAll timpl simpl m))) x = map_of (services m) x"
  proof
    fix x assume x: "x \<in> set post"
    then have a: "x \<notin> set (rev pre)" and b: "x \<noteq> n" and c: "x \<notin> set pre" using d by auto
    have "map_of (services (snd (startAll timpl simpl m))) x = map_of (services ?m2) x"
      by (simp add: res stop_running_others[OF a])
    also have "\<dots> = map_of (services m1) x"
      using b by (simp add: mlog_def map_of_Map_set_other deliver_fields)
    also have "\<dots> = map_of (services ?m0) x" using startAll_loop_others[OF pre c] .
    finally show "map_of (services (snd (startAll timpl simpl m))) x = map_of (services m) x"
      by (simp add: mlog_def)
  qed
qed

lemma startAll_optional_failure:
  assumes "map_of (services m) n = Some s" and "isl (fst (start (timpl n) s))" and "\<not> isRequired s"
  shows "startAll_loop timpl simpl (n # ns) m
           = startAll_loop timpl simpl ns
               (mlog Err ''Failed to start service'' n
                 (deliver s (snd (start (timpl n) s))
                   (m\<lparr> services := Map_set n (snd (start (timpl n) s)) (services m),
                       called := called m @ [called_start n] \<rparr>)))"
    and "mlogged (mlog Err ''Failed to start service'' n
                 (deliver s (snd (start (timpl n) s))
                   (m\<lparr> services := Map_set n (snd (start (timpl n) s)) (services m),
                       called := called m @ [called_start n] \<rparr>)))
           = mlogged m
             @ (if eventBus s = manager_eventBus m \<and> state s \<noteq> STARTING
                then [(Warn, ''Service error event received'', name s)] else [])
             @ [(Err, ''Failed to start service'', n)]"
proof -
  obtain e s' where st: "start (timpl n) s = (Inl e, s')"
    using assms(2) by (cases "start (timpl n) s") (auto simp: isl_def)
  have "\<not> isRequired s'" using start_isRequired[of "timpl n" s] st assms(3) by simp
  then show "startAll_loop timpl simpl (n # ns) m
           = startAll_loop timpl simpl ns
               (mlog Err ''Failed to start service'' n
                 (deliver s (snd (start (timpl n) s))
                   (m\<lparr> services := Map_set n (snd (start (timpl n) s)) (services m),
                       called := called m @ [called_start n] \<rparr>)))"
    using assms(1) st by (simp add: Let_def)
  show "mlogged (mlog Err ''Failed to start service'' n
                 (deliver s (snd (start (timpl n) s))
                   (m\<lparr> services := Map_set n (snd (start (timpl n) s)) (services m),
                       called := called m @ [called_start n] \<rparr>)))
           = mlogged m
             @ (if eventBus s = manager_eventBus m \<and> state s \<noteq> STARTING
                then [(Warn, ''Service error event received'', name s)] else [])
             @ [(Err, ''Failed to start service'', n)]"
    using deliver_start_failure[OF assms(2),
        of "m\<lparr> services := Map_set n (snd (start (timpl n) s)) (services m),
               called := called m @ [called_start n] \<rparr>"]
    by (simp add: mlog_def)
qed

text \<open>
  C2. Let the start order be \<open>pre\<close>, then \<open>n\<close>, then \<open>post\<close>, let the loop of
  \<^verbatim>\<open>startAll()\<close> get through \<open>pre\<close> without throwing, and let the \<^verbatim>\<open>start()\<close> of the
  required service \<open>n\<close> throw. Then \<^verbatim>\<open>startAll()\<close> throws a \<^verbatim>\<open>ServiceError\<close>. After the
  failed start it calls \<^verbatim>\<open>stop()\<close> on exactly the services of \<open>pre\<close> that are Running,
  in reverse start order. Each of these is left as its \<^verbatim>\<open>stop()\<close> leaves it, Stopped, or
  in Error when the \<^verbatim>\<open>stop()\<close> threw; the other services of \<open>pre\<close> are left as they were;
  so no service of \<open>pre\<close> is Running afterwards. The failed service is left as its
  \<^verbatim>\<open>start()\<close> left it. The manager's log gets the line of its error handler (when the
  service emits on the manager's bus and did not throw at its guard), the line of the
  failed start and one line for each \<^verbatim>\<open>stop()\<close> that threw, and nothing else. No service
  of \<open>post\<close> is touched. When the \<^verbatim>\<open>start()\<close> of a service that is not required throws,
  the failure is logged in the same way and the loop goes on with the next service.
\<close>

theorem required_failure_rolls_back:
  "(startOrder m = pre @ n # post \<and> distinct (pre @ n # post)
      \<and> startAll_loop timpl simpl pre
            (mlog Info ''Starting all services in dependency order...'' [] m) = (Inr (), m1)
      \<and> map_of (services m1) n = Some s \<and> isl (fst (start (timpl n) s)) \<and> isRequired s
     \<longrightarrow> fst (startAll timpl simpl m)
            = Inl (Exn ServiceError (''Required service '' @ n @ '' failed to start''))
        \<and> called (snd (startAll timpl simpl m))
            = called m1 @ [called_start n] @ map called_stop (filter (running m1) (rev pre))
        \<and> (\<forall>x \<in> set pre.
              map_of (services (snd (startAll timpl simpl m))) x
                = map_option (\<lambda>sx. if state sx = RUNNING then snd (stop (simpl x) sx) else sx)
                    (map_of (services m1) x))
        \<and> (\<forall>x \<in> set pre. running m1 x \<longrightarrow>
              map_option state (map_of (services (snd (startAll timpl simpl m))) x)
                = Some (if stop_fails simpl m1 x then ERROR else STOPPED))
        \<and> (\<forall>x \<in> set pre. \<not> running (snd (startAll timpl simpl m)) x)
        \<and> map_of (services (snd (startAll timpl simpl m))) n = Some (snd (start (timpl n) s))
        \<and> mlogged (snd (startAll timpl simpl m))
            = mlogged m1
              @ (if eventBus s = manager_eventBus m \<and> state s \<noteq> STARTING
                 then [(Warn, ''Service error event received'', name s)] else [])
              @ [(Err, ''Failed to start service'', n)]
              @ map (\<lambda>x. (Err, ''Failed to stop service during cleanup'', x))
                  (filter (stop_fails simpl m1) (rev pre))
        \<and> (\<forall>x \<in> set post.
              map_of (services (snd (startAll timpl simpl m))) x = map_of (services m) x))
   \<and> (map_of (services m) n = Some s \<and> isl (fst (start (timpl n) s)) \<and> \<not> isRequired s
     \<longrightarrow> startAll_loop timpl simpl (n # ns) m
          = startAll_loop timpl simpl ns
              (mlog Err ''Failed to start service'' n
                (deliver s (snd (start (timpl n) s))
                  (m\<lparr> services := Map_set n (snd (start (timpl n) s)) (services m),
                      called := called m @ [called_start n] \<rparr>)))
        \<and> mlogged (mlog Err ''Failed to start service'' n
                (deliver s (snd (start (timpl n) s))
                  (m\<lparr> services := Map_set n (snd (start (timpl n) s)) (services m),
                      called := called m @ [called_start n] \<rparr>)))
          = mlogged m
            @ (if eventBus s = manager_eventBus m \<and> state s \<noteq> STARTING
               then [(Warn, ''Service error event received'', name s)] else [])
            @ [(Err, ''Failed to start service'', n)])"
  (is "(?required \<longrightarrow> ?rolled_back) \<and> (?optional \<longrightarrow> ?goes_on)")
proof (rule conjI; rule impI)
  assume ?required
  then have "startOrder m = pre @ n # post" and "distinct (pre @ n # post)"
    and "startAll_loop timpl simpl pre
            (mlog Info ''Starting all services in dependency order...'' [] m) = (Inr (), m1)"
    and "map_of (services m1) n = Some s" and "isl (fst (start (timpl n) s))"
    and "isRequired s"
    by simp_all
  note r = startAll_required_failure[OF this]
  show ?rolled_back by (intro conjI r)
next
  assume ?optional
  then have "map_of (services m) n = Some s" and "isl (fst (start (timpl n) s))"
    and "\<not> isRequired s"
    by simp_all
  note h = this
  show ?goes_on
    using startAll_optional_failure(1)[of m n s timpl simpl ns, OF h]
      startAll_optional_failure(2)[of m n s timpl, OF h]
    by (intro conjI)
qed

lemmas startAll_eval =
  startAll_def stopStartedServices_def stop_service_def fail_B_def all_stop_def
  ok_start_def ok_stop_def failing_start_def running_def stop_fails_def
  fail_O_def register_all_def registerService_def calculateOrder_def
  updateDependencyGraph_def topological_order_def visit.simps visit_deps.simps Map_keys_def
  graph_deps_def Set_of_def Set_add_def svc_def mlog_def circular_ServiceError_def
  new_manager_def deliver_def

text \<open>
  Scenario A: \<open>A\<close>, \<open>B\<close> on \<open>A\<close> and \<open>C\<close> on \<open>B\<close>, all required, and the start of \<open>B\<close>
  fails. \<open>A\<close> is started and stopped again, \<open>B\<close> is in Error, \<open>C\<close> is never started, and
  the log ends with the handler's line and the line of the failed start.
\<close>

theorem required_failure_rolls_back_witness:
  "fst (startAll fail_B all_stop chain_manager)
     = Inl (Exn ServiceError ''Required service B failed to start'')
   \<and> called (snd (startAll fail_B all_stop chain_manager))
     = [called_start ''A'', called_start ''B'', called_stop ''A'']
   \<and> map_option state (map_of (services (snd (startAll fail_B all_stop chain_manager))) ''A'')
     = Some STOPPED
   \<and> map_option history (map_of (services (snd (startAll fail_B all_stop chain_manager))) ''A'')
     = Some [STARTING, RUNNING, STOPPING, STOPPED]
   \<and> \<not> running (snd (startAll fail_B all_stop chain_manager)) ''A''
   \<and> map_option state (map_of (services (snd (startAll fail_B all_stop chain_manager))) ''B'')
     = Some ERROR
   \<and> map_of (services (snd (startAll fail_B all_stop chain_manager))) ''C''
     = map_of (services chain_manager) ''C''
   \<and> map_option history (map_of (services (snd (startAll fail_B all_stop chain_manager))) ''C'')
     = Some []
   \<and> mlogged (snd (startAll fail_B all_stop chain_manager))
     = mlogged chain_manager
       @ [(Info, ''Starting all services in dependency order...'', []),
          (Warn, ''Service error event received'', ''B''),
          (Err, ''Failed to start service'', ''B'')]
   \<and> fst (startAll_loop fail_O all_stop [''O'', ''P''] optional_manager) = Inr ()
   \<and> called (snd (startAll_loop fail_O all_stop [''O'', ''P''] optional_manager))
     = [called_start ''O'', called_start ''P'']
   \<and> mlogged (snd (startAll_loop fail_O all_stop [''O'', ''P''] optional_manager))
     = mlogged optional_manager
       @ [(Warn, ''Service error event received'', ''O''),
          (Err, ''Failed to start service'', ''O'')]"
proof -
  let ?m0 = "mlog Info ''Starting all services in dependency order...'' [] chain_manager"
  let ?m1 = "snd (startAll_loop fail_B all_stop [''A''] ?m0)"
  let ?b = "svc ''B'' [''A'']"
  let ?final = "snd (startAll fail_B all_stop chain_manager)"
  have h1: "startOrder chain_manager = [''A''] @ ''B'' # [''C'']"
    by (simp add: chain_manager_def startAll_eval lifecycle_defs)
  have h2: "distinct ([''A''] @ ''B'' # [''C''])" by simp
  have h3: "startAll_loop fail_B all_stop [''A''] ?m0 = (Inr (), ?m1)"
    by (simp add: chain_manager_def startAll_eval lifecycle_defs)
  have h4: "map_of (services ?m1) ''B'' = Some ?b"
    by (simp add: chain_manager_def startAll_eval lifecycle_defs)
  have h5: "isl (fst (start (fail_B ''B'') ?b))"
    by (simp add: startAll_eval lifecycle_defs)
  have h6: "isRequired ?b" by (simp add: svc_def new_service_def)
  have c1: "called ?m1 = [called_start ''A'']"
    by (simp add: chain_manager_def startAll_eval lifecycle_defs)
  have c2: "filter (running ?m1) (rev [''A'']) = [''A'']"
    by (simp add: chain_manager_def startAll_eval lifecycle_defs)
  have c3: "filter (stop_fails all_stop ?m1) (rev [''A'']) = []"
    by (simp add: chain_manager_def startAll_eval lifecycle_defs)
  have c4: "mlogged ?m1
              = mlogged chain_manager
                @ [(Info, ''Starting all services in dependency order...'', [])]"
    by (simp add: chain_manager_def startAll_eval lifecycle_defs)
  have c5: "eventBus ?b = manager_eventBus chain_manager" "state ?b \<noteq> STARTING"
    "name ?b = ''B''"
    by (simp_all add: chain_manager_def startAll_eval lifecycle_defs)
  have c6: "map_option (\<lambda>sx. if state sx = RUNNING then snd (stop (all_stop ''A'') sx) else sx)
              (map_of (services ?m1) ''A'')
            = Some (snd (stop ok_stop (snd (start ok_start (svc ''A'' [])))))"
    by (simp add: chain_manager_def startAll_eval lifecycle_defs)
  have c7: "state (snd (stop ok_stop (snd (start ok_start (svc ''A'' []))))) = STOPPED"
    "history (snd (stop ok_stop (snd (start ok_start (svc ''A'' [])))))
       = [STARTING, RUNNING, STOPPING, STOPPED]"
    by (simp_all add: startAll_eval lifecycle_defs)
  have c8: "state (snd (start (fail_B ''B'') ?b)) = ERROR"
    by (simp add: startAll_eval lifecycle_defs)
  have c9: "map_option history (map_of (services chain_manager) ''C'') = Some []"
    by (simp add: chain_manager_def startAll_eval lifecycle_defs)
  from required_failure_rolls_back[of chain_manager "[''A'']" "''B''" "[''C'']" fail_B all_stop
      ?m1 ?b "[]"] h1 h2 h3 h4 h5 h6
  have "fst (startAll fail_B all_stop chain_manager)
            = Inl (Exn ServiceError (''Required service '' @ ''B'' @ '' failed to start''))"
    and "called ?final
            = called ?m1 @ [called_start ''B''] @ map called_stop (filter (running ?m1) (rev [''A'']))"
    and "\<forall>x \<in> set [''A''].
              map_of (services ?final) x
                = map_option (\<lambda>sx. if state sx = RUNNING then snd (stop (all_stop x) sx) else sx)
                    (map_of (services ?m1) x)"
    and "\<forall>x \<in> set [''A'']. \<not> running ?final x"
    and "map_of (services ?final) ''B'' = Some (snd (start (fail_B ''B'') ?b))"
    and "mlogged ?final
            = mlogged ?m1
              @ (if eventBus ?b = manager_eventBus chain_manager \<and> state ?b \<noteq> STARTING
                 then [(Warn, ''Service error event received'', name ?b)] else [])
              @ [(Err, ''Failed to start service'', ''B'')]
              @ map (\<lambda>x. (Err, ''Failed to stop service during cleanup'', x))
                  (filter (stop_fails all_stop ?m1) (rev [''A'']))"
    and "\<forall>x \<in> set [''C'']. map_of (services ?final) x = map_of (services chain_manager) x"
    by blast+
  note r = this
  have a: "map_of (services ?final) ''A''
             = Some (snd (stop ok_stop (snd (start ok_start (svc ''A'' [])))))"
    using r(3) c6 by simp
  have first:
    "fst (startAll fail_B all_stop chain_manager)
       = Inl (Exn ServiceError ''Required service B failed to start'')
     \<and> called ?final = [called_start ''A'', called_start ''B'', called_stop ''A'']
     \<and> map_option state (map_of (services ?final) ''A'') = Some STOPPED
     \<and> map_option history (map_of (services ?final) ''A'')
         = Some [STARTING, RUNNING, STOPPING, STOPPED]
     \<and> \<not> running ?final ''A''
     \<and> map_option state (map_of (services ?final) ''B'') = Some ERROR
     \<and> map_of (services ?final) ''C'' = map_of (services chain_manager) ''C''
     \<and> map_option history (map_of (services ?final) ''C'') = Some []
     \<and> mlogged ?final
         = mlogged chain_manager
           @ [(Info, ''Starting all services in dependency order...'', []),
              (Warn, ''Service error event received'', ''B''),
              (Err, ''Failed to start service'', ''B'')]"
    using r(1,2,4,5,6,7) a c1 c2 c3 c4 c5 c7 c8 c9 by simp
  let ?o = "new_service ''O'' [] False DEFAULT_SERVICE_CONFIG"
  have g1: "map_of (services optional_manager) ''O'' = Some ?o"
    by (simp add: optional_manager_def startAll_eval lifecycle_defs)
  have g2: "isl (fst (start (fail_O ''O'') ?o))"
    by (simp add: startAll_eval lifecycle_defs)
  have g3: "\<not> isRequired ?o" by (simp add: new_service_def)
  from required_failure_rolls_back[of optional_manager "[]" "''O''" "[]" fail_O all_stop
      optional_manager ?o "[''P'']"] g1 g2 g3
  have "startAll_loop fail_O all_stop [''O'', ''P''] optional_manager
          = startAll_loop fail_O all_stop [''P'']
              (mlog Err ''Failed to start service'' ''O''
                (deliver ?o (snd (start (fail_O ''O'') ?o))
                  (optional_manager\<lparr> services := Map_set ''O'' (snd (start (fail_O ''O'') ?o))
                                                    (services optional_manager),
                      called := called optional_manager @ [called_start ''O''] \<rparr>)))"
    by blast
  then have second:
    "fst (startAll_loop fail_O all_stop [''O'', ''P''] optional_manager) = Inr ()
     \<and> called (snd (startAll_loop fail_O all_stop [''O'', ''P''] optional_manager))
       = [called_start ''O'', called_start ''P'']
     \<and> mlogged (snd (startAll_loop fail_O all_stop [''O'', ''P''] optional_manager))
       = mlogged optional_manager
         @ [(Warn, ''Service error event received'', ''O''),
            (Err, ''Failed to start service'', ''O'')]"
    by (simp add: optional_manager_def startAll_eval lifecycle_defs)
  from first second show ?thesis by blast
qed

lemma calculateOrder_orders:
  assumes "stopOrder m = rev (startOrder m)" and "distinct (startOrder m)"
  shows "stopOrder (snd (calculateOrder m)) = rev (startOrder (snd (calculateOrder m)))
         \<and> distinct (startOrder (snd (calculateOrder m)))"
proof (cases "topological_order (Map_keys (services m)) (graph_deps (dependencyGraph m))
                circular_ServiceError")
  case (Inl e)
  then show ?thesis using assms by (simp add: calculateOrder_def)
next
  case (Inr xs)
  from topological_order_success[OF Inr] have "distinct xs" by (simp add: dependencies_first_def)
  then show ?thesis using Inr by (simp add: calculateOrder_def)
qed

lemma registerService_orders:
  assumes "stopOrder m = rev (startOrder m)" and "distinct (startOrder m)"
  shows "stopOrder (snd (registerService s m)) = rev (startOrder (snd (registerService s m)))
         \<and> distinct (startOrder (snd (registerService s m)))"
proof -
  let ?m1 = "updateDependencyGraph s (m\<lparr> services := Map_set (name s) s (services m) \<rparr>)"
  have "stopOrder ?m1 = rev (startOrder ?m1)" "distinct (startOrder ?m1)"
    using assms by (simp_all add: updateDependencyGraph_def)
  from calculateOrder_orders[OF this] show ?thesis
    by (auto simp: registerService_def mlog_def split: prod.splits sum.splits)
qed

lemma unregisterService_orders:
  assumes "stopOrder m = rev (startOrder m)" and "distinct (startOrder m)"
  shows "stopOrder (snd (unregisterService n m)) = rev (startOrder (snd (unregisterService n m)))
         \<and> distinct (startOrder (snd (unregisterService n m)))"
proof -
  let ?m1 = "m\<lparr> services := Map_delete n (services m),
                dependencyGraph := Map_delete n (dependencyGraph m) \<rparr>"
  have "stopOrder ?m1 = rev (startOrder ?m1)" "distinct (startOrder ?m1)"
    using assms by simp_all
  from calculateOrder_orders[OF this] assms show ?thesis
    by (auto simp: unregisterService_def mlog_def split: prod.splits sum.splits option.splits)
qed

lemma startAll_orders:
  "startOrder (snd (startAll timpl simpl m)) = startOrder m
   \<and> stopOrder (snd (startAll timpl simpl m)) = stopOrder m"
  using startAll_loop_orders[of timpl simpl "startOrder m"
      "mlog Info ''Starting all services in dependency order...'' [] m"]
  by (auto simp: startAll_def mlog_def split: prod.splits sum.splits)

lemma stopAll_orders:
  "startOrder (stopAll simpl m) = startOrder m \<and> stopOrder (stopAll simpl m) = stopOrder m"
  by (simp add: stopAll_def mlog_def stop_running_orders)

lemma manager_after_orders:
  "stopOrder (manager_after ops) = rev (startOrder (manager_after ops))
   \<and> distinct (startOrder (manager_after ops))"
proof (induction ops rule: rev_induct)
  case Nil
  then show ?case by (simp add: manager_after_def new_manager_def)
next
  case (snoc op ops)
  have step: "manager_after (ops @ [op]) = apply_op op (manager_after ops)"
    by (simp add: manager_after_def)
  from snoc show ?case
    unfolding step
    by (cases op)
       (simp_all add: registerService_orders unregisterService_orders startAll_orders
          stopAll_orders)
qed

lemma stopAll_called:
  assumes "stopOrder m = rev (startOrder m)" and "distinct (startOrder m)"
  shows "called (stopAll simpl m)
           = called m @ map called_stop (filter (running m) (rev (startOrder m)))"
proof -
  let ?m0 = "mlog Info ''Stopping all services in reverse dependency order...'' [] m"
  have d: "distinct (stopOrder ?m0)" using assms by (simp add: mlog_def)
  have "running ?m0 = running m" by (rule ext) (simp add: running_def mlog_def)
  then have "filter (running ?m0) (stopOrder ?m0) = filter (running m) (rev (startOrder m))"
    using assms by (simp add: mlog_def)
  then show ?thesis
    using stop_running_called[OF d, of simpl "''Failed to stop service''" ]
    by (simp add: stopAll_def mlog_def)
qed

section \<open>Properties of the component initializer\<close>

lemma initialize_loop_fields:
  "initializationOrder (snd (initialize_loop env ns res bi)) = initializationOrder bi
   \<and> components (snd (initialize_loop env ns res bi)) = components bi
   \<and> shutdownInProgress (snd (initialize_loop env ns res bi)) = shutdownInProgress bi
   \<and> shutdown_calls (snd (initialize_loop env ns res bi)) = shutdown_calls bi
   \<and> circuitBreakers (snd (initialize_loop env ns res bi)) = circuitBreakers bi"
  by (induction ns arbitrary: res bi) (auto simp: Let_def split: option.splits sum.splits)

lemma initialize_success:
  assumes "fst (initialize env bi) = Inr res"
  shows "\<exists>ord. calculateInitializationOrder bi = Inr ord
           \<and> initializationOrder (snd (initialize env bi)) = ord"
    and "initialized (snd (initialize env bi))"
    and "shutdownInProgress (snd (initialize env bi)) = shutdownInProgress bi"
    and "components (snd (initialize env bi)) = components bi"
    and "verifySystemIntegration (snd (initialize env bi)) = Inr ()"
proof -
  from assms obtain ord r bi1 res1 where
    o: "calculateInitializationOrder bi = Inr ord"
    and l: "initialize_loop env ord empty_result (bi\<lparr> initializationOrder := ord \<rparr>) = (Inr r, bi1)"
    and p: "performPostInitializationChecks env r bi1 = Inr res1"
    and e: "snd (initialize env bi)
              = bi1\<lparr> initialized := True, emitted := emitted bi1 @ [''backend:initialized''] \<rparr>"
    by (auto simp: initialize_def split: if_splits sum.splits prod.splits)
  from initialize_loop_fields[of env ord empty_result "bi\<lparr> initializationOrder := ord \<rparr>"] l
  have f: "initializationOrder bi1 = ord" "components bi1 = components bi"
    "shutdownInProgress bi1 = shutdownInProgress bi" by simp_all
  show "\<exists>ord. calculateInitializationOrder bi = Inr ord
           \<and> initializationOrder (snd (initialize env bi)) = ord"
    using o f e by simp
  show "initialized (snd (initialize env bi))" using e by simp
  show "shutdownInProgress (snd (initialize env bi)) = shutdownInProgress bi" using e f by simp
  show "components (snd (initialize env bi)) = components bi" using e f by simp
  from p have "verifySystemIntegration bi1 = Inr ()"
    by (auto simp: performPostInitializationChecks_def Let_def split: sum.splits)
  then show "verifySystemIntegration (snd (initialize env bi)) = Inr ()"
    using e by (simp add: verifySystemIntegration_def)
qed

lemma shutdown_loop_calls:
  "distinct ns \<Longrightarrow>
     shutdown_calls (shutdown_loop env ns bi)
       = shutdown_calls bi
         @ filter (\<lambda>n. n \<in> set (initializedComponents bi) \<and> map_of (components bi) n \<noteq> None) ns"
proof (induction ns arbitrary: bi)
  case Nil
  then show ?case by simp
next
  case (Cons n ns)
  then have d: "distinct ns" and nn: "n \<notin> set ns" by auto
  let ?P = "\<lambda>b x. x \<in> set (initializedComponents b) \<and> map_of (components b) x \<noteq> None"
  show ?case
  proof (cases "?P bi n")
    case False
    then show ?thesis using Cons.IH[OF d, of bi] by (auto split: option.splits)
  next
    case True
    then obtain c where c: "map_of (components bi) n = Some c" by auto
    let ?b1 = "bi\<lparr> shutdown_calls := shutdown_calls bi @ [n],
                    initializedComponents := Set_delete n (initializedComponents bi) \<rparr>"
    let ?b2 = "bi\<lparr> shutdown_calls := shutdown_calls bi @ [n] \<rparr>"
    have "x \<in> set ns \<Longrightarrow> ?P ?b1 x = ?P bi x" for x
      using nn by (auto simp: Set_delete_def)
    then have f1: "filter (?P ?b1) ns = filter (?P bi) ns" by (intro filter_cong) auto
    have f2: "filter (?P ?b2) ns = filter (?P bi) ns" by simp
    show ?thesis
    proof (cases "shutdown_run env n = Within (Resolve ())")
      case yes: True
      then show ?thesis using True c Cons.IH[OF d, of ?b1] f1 by simp
    next
      case no: False
      then have "shutdown_loop env (n # ns) bi = shutdown_loop env ns ?b2"
        using True c by (auto split: raced.splits outcome.splits)
      then show ?thesis using True Cons.IH[OF d, of ?b2] f2 by simp
    qed
  qed
qed

text \<open>
  C5. After any list of registrations, removals, \<^verbatim>\<open>startAll()\<close> and \<^verbatim>\<open>stopAll()\<close> calls
  on a new manager the stored stop order is the reverse of the stored start order, and
  \<^verbatim>\<open>stopAll()\<close> calls \<^verbatim>\<open>stop()\<close> on the Running services one after the other in that
  reversed order. After a successful \<^verbatim>\<open>initialize()\<close> the stored initialization order
  is the computed one, and \<^verbatim>\<open>shutdown()\<close> calls \<^verbatim>\<open>shutdown()\<close> on the initialized
  components one after the other in the reverse of it.
\<close>

theorem stop_order_is_reverse:
  "stopOrder (manager_after ops) = rev (startOrder (manager_after ops))
   \<and> called (stopAll simpl (manager_after ops))
       = called (manager_after ops)
         @ map called_stop (filter (running (manager_after ops))
                              (rev (startOrder (manager_after ops))))
   \<and> (fst (initialize env bi) = Inr res \<and> \<not> shutdownInProgress bi \<longrightarrow>
        calculateInitializationOrder bi = Inr (initializationOrder (snd (initialize env bi)))
        \<and> shutdown_calls (shutdown env2 (snd (initialize env bi)))
            = shutdown_calls (snd (initialize env bi))
              @ filter (\<lambda>n. n \<in> set (initializedComponents (snd (initialize env bi)))
                            \<and> map_of (components bi) n \<noteq> None)
                  (rev (initializationOrder (snd (initialize env bi)))))"
proof (intro conjI impI)
  show "stopOrder (manager_after ops) = rev (startOrder (manager_after ops))"
    using manager_after_orders[of ops] by simp
  show "called (stopAll simpl (manager_after ops))
       = called (manager_after ops)
         @ map called_stop (filter (running (manager_after ops))
                              (rev (startOrder (manager_after ops))))"
    using manager_after_orders[of ops] by (intro stopAll_called) simp_all
next
  assume a: "fst (initialize env bi) = Inr res \<and> \<not> shutdownInProgress bi"
  let ?b = "snd (initialize env bi)"
  from a have ok: "fst (initialize env bi) = Inr res" and np: "\<not> shutdownInProgress bi" by simp_all
  from initialize_success(1)[OF ok] obtain ord where
    o: "calculateInitializationOrder bi = Inr ord" "initializationOrder ?b = ord" by blast
  then show "calculateInitializationOrder bi = Inr (initializationOrder ?b)" by simp
  from o(1) have "distinct ord"
    using topological_order_success[of "Map_keys (components bi)" "component_deps (components bi)"
        circular_InitializationError ord]
    by (simp add: calculateInitializationOrder_def dependencies_first_def)
  then have d: "distinct (rev (initializationOrder ?b))" using o(2) by simp
  have i: "initialized ?b" "\<not> shutdownInProgress ?b" "components ?b = components bi"
    using initialize_success(2,3,4)[OF ok] np by simp_all
  show "shutdown_calls (shutdown env2 ?b)
            = shutdown_calls ?b
              @ filter (\<lambda>n. n \<in> set (initializedComponents ?b) \<and> map_of (components bi) n \<noteq> None)
                  (rev (initializationOrder ?b))"
    using i shutdown_loop_calls[OF d, of env2 "?b\<lparr> shutdownInProgress := True \<rparr>"]
    by (simp add: shutdown_def Let_def)
qed

lemmas initializer_eval =
  initialize_def initializeComponent_def performPostInitializationChecks_def
  verifySystemIntegration_def criticalComponents_def cleanupPartialInitialization_def
  empty_result_def calculateInitializationOrder_def component_deps_def
  circular_InitializationError_def registerComponent_def new_initializer_def
  componentTypes_def createLoggerComponent_def createEventBusComponent_def
  config_component_def core_initializer_def ok_env_def shutdown_def Set_delete_def
  topological_order_def visit.simps visit_deps.simps Map_keys_def Set_add_def

theorem stop_order_is_reverse_witness:
  "startOrder (manager_after chain_ops) = [''A'', ''B'', ''C'']
   \<and> stopOrder (manager_after chain_ops) = [''C'', ''B'', ''A'']
   \<and> called (stopAll all_stop (manager_after chain_ops))
       = [called_start ''A'', called_start ''B'', called_start ''C'',
          called_stop ''C'', called_stop ''B'', called_stop ''A'']
   \<and> calculateInitializationOrder core_initializer = Inr [''logger'', ''eventBus'', ''config'']
   \<and> shutdown_calls (shutdown ok_env (snd (initialize ok_env core_initializer)))
       = [''config'', ''eventBus'', ''logger'']"
proof -
  have so: "startOrder (manager_after chain_ops) = [''A'', ''B'', ''C'']"
    by (simp add: manager_after_def chain_ops_def all_start_def startAll_eval lifecycle_defs)
  have c: "called (manager_after chain_ops)
             = [called_start ''A'', called_start ''B'', called_start ''C'']"
    by (simp add: manager_after_def chain_ops_def all_start_def startAll_eval lifecycle_defs)
  have r: "filter (running (manager_after chain_ops)) [''C'', ''B'', ''A''] = [''C'', ''B'', ''A'']"
    by (simp add: manager_after_def chain_ops_def all_start_def startAll_eval lifecycle_defs)
  have ok: "fst (initialize ok_env core_initializer)
              = Inr \<lparr> success = True,
                      res_initializedComponents = [''logger'', ''eventBus'', ''config''],
                      failedComponents = [],
                      healthStatus = [(''logger'', True, None), (''eventBus'', True, None),
                                      (''config'', True, None)] \<rparr>"
    by (simp add: initializer_eval)
  have np: "\<not> shutdownInProgress core_initializer" by (simp add: initializer_eval)
  have ic: "initializedComponents (snd (initialize ok_env core_initializer))
              = [''logger'', ''eventBus'', ''config'']"
    and io: "initializationOrder (snd (initialize ok_env core_initializer))
              = [''logger'', ''eventBus'', ''config'']"
    and sc: "shutdown_calls (snd (initialize ok_env core_initializer)) = []"
    and cs: "map_of (components core_initializer) ''logger'' \<noteq> None"
      "map_of (components core_initializer) ''eventBus'' \<noteq> None"
      "map_of (components core_initializer) ''config'' \<noteq> None"
    by (simp_all add: initializer_eval)
  from stop_order_is_reverse[of chain_ops all_stop ok_env core_initializer _ ok_env] ok np
  have "stopOrder (manager_after chain_ops) = rev (startOrder (manager_after chain_ops))"
    and "called (stopAll all_stop (manager_after chain_ops))
       = called (manager_after chain_ops)
         @ map called_stop (filter (running (manager_after chain_ops))
                              (rev (startOrder (manager_after chain_ops))))"
    and "calculateInitializationOrder core_initializer
           = Inr (initializationOrder (snd (initialize ok_env core_initializer)))"
    and "shutdown_calls (shutdown ok_env (snd (initialize ok_env core_initializer)))
            = shutdown_calls (snd (initialize ok_env core_initializer))
              @ filter (\<lambda>n. n \<in> set (initializedComponents (snd (initialize ok_env core_initializer)))
                            \<and> map_of (components core_initializer) n \<noteq> None)
                  (rev (initializationOrder (snd (initialize ok_env core_initializer))))"
    by blast+
  then show ?thesis unfolding so c io ic sc using r cs by simp
qed

lemma verifySystemIntegration_iff:
  "verifySystemIntegration bi = Inr ()
     \<longleftrightarrow> set criticalComponents \<subseteq> set (initializedComponents bi)"
  by (auto simp: verifySystemIntegration_def Let_def filter_empty_conv)

lemma verifySystemIntegration_error:
  "\<not> set criticalComponents \<subseteq> set (initializedComponents bi) \<Longrightarrow>
     verifySystemIntegration bi
       = Inl (Exn InitializationError
               (''Critical components not initialized: ''
                  @ join '', '' (filter (\<lambda>n. n \<notin> set (initializedComponents bi))
                                  criticalComponents)))"
  by (auto simp: verifySystemIntegration_def Let_def filter_empty_conv)

text \<open>
  C8. The integration check passes exactly when logger, config and eventBus are all in
  the initialized set. When the loop of \<^verbatim>\<open>initialize()\<close> has run to its end without
  throwing and one of the three is not in the set, \<^verbatim>\<open>initialize()\<close> throws the
  \<^verbatim>\<open>InitializationError\<close> that names the missing ones, whatever the loop wrote to the
  list of failed components; and an \<^verbatim>\<open>initialize()\<close> that returns leaves all three in
  the set.
\<close>

theorem critical_components_required:
  "criticalComponents = [''logger'', ''config'', ''eventBus'']
   \<and> (verifySystemIntegration bi = Inr ()
        \<longleftrightarrow> set criticalComponents \<subseteq> set (initializedComponents bi))
   \<and> (\<not> initialized bi \<and> calculateInitializationOrder bi = Inr ord
        \<and> initialize_loop env ord empty_result (bi\<lparr> initializationOrder := ord \<rparr>) = (Inr r, bi1)
        \<and> \<not> set criticalComponents \<subseteq> set (initializedComponents bi1)
      \<longrightarrow> fst (initialize env bi)
            = Inl (Exn InitializationError
                    (''Critical components not initialized: ''
                       @ join '', '' (filter (\<lambda>n. n \<notin> set (initializedComponents bi1))
                                       criticalComponents))))
   \<and> (fst (initialize env bi) = Inr res
      \<longrightarrow> set criticalComponents \<subseteq> set (initializedComponents (snd (initialize env bi))))"
proof (intro conjI impI)
  show "criticalComponents = [''logger'', ''config'', ''eventBus'']"
    by (simp add: criticalComponents_def)
  show "verifySystemIntegration bi = Inr ()
        \<longleftrightarrow> set criticalComponents \<subseteq> set (initializedComponents bi)"
    by (rule verifySystemIntegration_iff)
next
  assume a: "\<not> initialized bi \<and> calculateInitializationOrder bi = Inr ord
        \<and> initialize_loop env ord empty_result (bi\<lparr> initializationOrder := ord \<rparr>) = (Inr r, bi1)
        \<and> \<not> set criticalComponents \<subseteq> set (initializedComponents bi1)"
  then have "performPostInitializationChecks env r bi1
      = Inl (Exn InitializationError
               (''Critical components not initialized: ''
                  @ join '', '' (filter (\<lambda>n. n \<notin> set (initializedComponents bi1))
                                  criticalComponents)))"
    using verifySystemIntegration_error[of bi1]
    by (simp add: performPostInitializationChecks_def Let_def)
  with a show "fst (initialize env bi)
            = Inl (Exn InitializationError
                    (''Critical components not initialized: ''
                       @ join '', '' (filter (\<lambda>n. n \<notin> set (initializedComponents bi1))
                                       criticalComponents)))"
    by (simp add: initialize_def)
next
  assume "fst (initialize env bi) = Inr res"
  from initialize_success(5)[OF this]
  show "set criticalComponents \<subseteq> set (initializedComponents (snd (initialize env bi)))"
    by (simp add: verifySystemIntegration_iff)
qed

theorem critical_components_required_witness:
  "failedComponents
     (projr (fst (initialize_loop ok_env [''logger'', ''eventBus''] empty_result
                    (orchestrator_components\<lparr> initializationOrder := [''logger'', ''eventBus''] \<rparr>))))
     = []
   \<and> fst (initialize ok_env orchestrator_components)
       = Inl (Exn InitializationError ''Critical components not initialized: config'')
   \<and> set criticalComponents
       \<subseteq> set (initializedComponents (snd (initialize ok_env core_initializer)))"
proof -
  let ?b = "orchestrator_components\<lparr> initializationOrder := [''logger'', ''eventBus''] \<rparr>"
  let ?r = "\<lparr> success = False, res_initializedComponents = [''logger'', ''eventBus''],
              failedComponents = [], healthStatus = [] \<rparr>"
  let ?b1 = "?b\<lparr> initializedComponents := [''logger'', ''eventBus''] \<rparr>"
  have h1: "\<not> initialized orchestrator_components"
    by (simp add: orchestrator_components_def initializer_eval)
  have h2: "calculateInitializationOrder orchestrator_components = Inr [''logger'', ''eventBus'']"
    by (simp add: orchestrator_components_def initializer_eval)
  have h3: "initialize_loop ok_env [''logger'', ''eventBus''] empty_result ?b = (Inr ?r, ?b1)"
    by (simp add: orchestrator_components_def initializer_eval)
  have h4: "\<not> set criticalComponents \<subseteq> set (initializedComponents ?b1)"
    by (simp add: criticalComponents_def)
  have m: "filter (\<lambda>n. n \<notin> set (initializedComponents ?b1)) criticalComponents = [''config'']"
    by (simp add: criticalComponents_def)
  have ok: "fst (initialize ok_env core_initializer)
              = Inr \<lparr> success = True,
                      res_initializedComponents = [''logger'', ''eventBus'', ''config''],
                      failedComponents = [],
                      healthStatus = [(''logger'', True, None), (''eventBus'', True, None),
                                      (''config'', True, None)] \<rparr>"
    by (simp add: initializer_eval)
  from critical_components_required[of orchestrator_components "[''logger'', ''eventBus'']"
      ok_env ?r ?b1 _] h1 h2 h3 h4
  have a: "fst (initialize ok_env orchestrator_components)
            = Inl (Exn InitializationError
                    (''Critical components not initialized: ''
                       @ join '', '' (filter (\<lambda>n. n \<notin> set (initializedComponents ?b1))
                                       criticalComponents)))"
    by blast
  from critical_components_required[of core_initializer _ ok_env _ _] ok
  have b: "set criticalComponents
       \<subseteq> set (initializedComponents (snd (initialize ok_env core_initializer)))"
    by blast
  show ?thesis using a b unfolding m h3 by simp
qed

section \<open>Properties of the orchestrator\<close>

lemma map_of_Some_key: "map_of ps n = Some v \<Longrightarrow> n \<in> set (Map_keys ps)"
  by (auto simp: Map_keys_def dest: map_of_SomeD intro: rev_image_eqI)

lemma Map_keys_Map_set: "set (Map_keys (Map_set k v ps)) = insert k (set (Map_keys ps))"
  by (induction ps) (auto simp: Map_keys_def)

lemma initialize_loop_initialized:
  "set (initializedComponents (snd (initialize_loop env ns res bi)))
     \<subseteq> set (initializedComponents bi) \<union> set (Map_keys (components bi))"
proof (induction ns arbitrary: res bi)
  case Nil
  then show ?case by simp
next
  case (Cons n ns)
  show ?case
  proof (cases "map_of (components bi) n")
    case None
    then show ?thesis using Cons.IH[of res bi] by simp
  next
    case (Some c)
    then have k: "n \<in> set (Map_keys (components bi))" by (rule map_of_Some_key)
    show ?thesis
    proof (cases "initializeComponent env bi c")
      case (Inr u)
      let ?res = "res\<lparr> res_initializedComponents := res_initializedComponents res @ [n] \<rparr>"
      let ?bi = "bi\<lparr> initializedComponents := Set_add n (initializedComponents bi) \<rparr>"
      have "set (initializedComponents (snd (initialize_loop env ns ?res ?bi)))
              \<subseteq> set (initializedComponents ?bi) \<union> set (Map_keys (components ?bi))"
        by (rule Cons.IH)
      then show ?thesis using Some Inr k by (auto simp: Set_add_def split: if_splits)
    next
      case (Inl e)
      show ?thesis using Some Inl Cons.IH by (simp add: Let_def)
    qed
  qed
qed

lemma initialize_loop_error:
  "fst (initialize_loop env ns res bi) = Inl e \<Longrightarrow> err_class e = InitializationError"
  by (induction ns arbitrary: res bi)
     (auto simp: Let_def split: option.splits sum.splits if_splits)

lemma initialize_never_without_config:
  assumes "config_absent bi"
  shows "\<exists>e. fst (initialize env bi) = Inl e \<and> err_class e = InitializationError"
    and "config_absent (snd (initialize env bi))"
proof -
  have keys: "''config'' \<notin> set (Map_keys (components bi))"
    and ini: "''config'' \<notin> set (initializedComponents bi)"
    using assms by (simp_all add: config_absent_def)
  have cleanup: "config_absent (cleanupPartialInitialization b)"
    if "components b = components bi" for b
    using that keys by (simp add: config_absent_def cleanupPartialInitialization_def)
  show "\<exists>e. fst (initialize env bi) = Inl e \<and> err_class e = InitializationError"
  proof (cases "initialized bi")
    case True
    then show ?thesis by (simp add: initialize_def)
  next
    case ni: False
    show ?thesis
    proof (cases "calculateInitializationOrder bi")
      case (Inl e)
      then obtain x where "e = circular_InitializationError x"
        using topological_order_failure[of "Map_keys (components bi)"
            "component_deps (components bi)" circular_InitializationError e]
        by (auto simp: calculateInitializationOrder_def)
      then show ?thesis using Inl ni
        by (simp add: initialize_def circular_InitializationError_def)
    next
      case (Inr ord)
      let ?b0 = "bi\<lparr> initializationOrder := ord \<rparr>"
      obtain r bi1 where l: "initialize_loop env ord empty_result ?b0 = (r, bi1)"
        by (cases "initialize_loop env ord empty_result ?b0")
      show ?thesis
      proof (cases r)
        case (Inl e)
        then have "err_class e = InitializationError"
          using initialize_loop_error[of env ord empty_result ?b0 e] l by simp
        then show ?thesis using Inr ni l Inl by (simp add: initialize_def)
      next
        case (Inr res)
        have "''config'' \<notin> set (initializedComponents bi1)"
          using initialize_loop_initialized[of env ord empty_result ?b0] l keys ini by auto
        then have "\<not> set criticalComponents \<subseteq> set (initializedComponents bi1)"
          by (auto simp: criticalComponents_def)
        from verifySystemIntegration_error[OF this]
        have "\<exists>msg. performPostInitializationChecks env res bi1
                = Inl (Exn InitializationError msg)"
          by (simp add: performPostInitializationChecks_def Let_def)
        then show ?thesis using \<open>calculateInitializationOrder bi = Inr ord\<close> ni l Inr
          by (auto simp: initialize_def)
      qed
    qed
  qed
  show "config_absent (snd (initialize env bi))"
  proof (cases "initialized bi")
    case True
    then show ?thesis using assms by (simp add: initialize_def)
  next
    case ni: False
    show ?thesis
    proof (cases "calculateInitializationOrder bi")
      case (Inl e)
      then show ?thesis using ni cleanup[of bi] by (simp add: initialize_def)
    next
      case (Inr ord)
      let ?b0 = "bi\<lparr> initializationOrder := ord \<rparr>"
      obtain r bi1 where l: "initialize_loop env ord empty_result ?b0 = (r, bi1)"
        by (cases "initialize_loop env ord empty_result ?b0")
      have c1: "components bi1 = components bi"
        using initialize_loop_fields[of env ord empty_result ?b0] l by simp
      have i1: "''config'' \<notin> set (initializedComponents bi1)"
        using initialize_loop_initialized[of env ord empty_result ?b0] l keys ini by auto
      have ca1: "config_absent b" if "components b = components bi1"
        and "initializedComponents b = initializedComponents bi1" for b
        using that c1 i1 keys by (simp add: config_absent_def)
      show ?thesis
        using Inr ni l cleanup[of bi1] c1 ca1
        by (auto simp: initialize_def cleanupPartialInitialization_def config_absent_def
            split: sum.splits)
    qed
  qed
qed

lemma registerComponent_config_absent:
  "config_absent bi \<Longrightarrow> comp_name c \<noteq> ''config'' \<Longrightarrow> config_absent (registerComponent c bi)"
  by (simp add: config_absent_def registerComponent_def Map_keys_Map_set)

lemma initializeCoreComponents_fails:
  assumes "config_absent (orch_initializer orc)"
  shows "\<exists>e. fst (initializeCoreComponents env orc) = Inl e \<and> err_class e = InitializationError"
    and "config_absent (orch_initializer (snd (initializeCoreComponents env orc)))"
    and "serviceManager (snd (initializeCoreComponents env orc)) = serviceManager orc"
    and "orch_initialized (snd (initializeCoreComponents env orc)) = orch_initialized orc"
proof -
  let ?bi = "registerComponent createEventBusComponent
               (registerComponent createLoggerComponent (orch_initializer orc))"
  have ca: "config_absent ?bi"
    using assms
    by (intro registerComponent_config_absent)
       (simp_all add: createLoggerComponent_def createEventBusComponent_def)
  note i = initialize_never_without_config[OF ca, of env]
  from i(1) obtain e where e: "fst (initialize env ?bi) = Inl e" "err_class e = InitializationError"
    by blast
  then show "\<exists>e. fst (initializeCoreComponents env orc) = Inl e \<and> err_class e = InitializationError"
    by (auto simp: initializeCoreComponents_def split: prod.splits)
  show "config_absent (orch_initializer (snd (initializeCoreComponents env orc)))"
    using i(2) e by (auto simp: initializeCoreComponents_def split: prod.splits)
  show "serviceManager (snd (initializeCoreComponents env orc)) = serviceManager orc"
    by (auto simp: initializeCoreComponents_def split: prod.splits sum.splits)
  show "orch_initialized (snd (initializeCoreComponents env orc)) = orch_initialized orc"
    by (auto simp: initializeCoreComponents_def split: prod.splits sum.splits)
qed

lemma orchestrator_initialize_fails:
  assumes "config_absent (orch_initializer orc)" and "\<not> orch_initialized orc"
  shows "fst (orchestrator_initialize env simpl later orc) = Inl orchestration_failed"
    and "config_absent (orch_initializer (snd (orchestrator_initialize env simpl later orc)))"
    and "\<not> orch_initialized (snd (orchestrator_initialize env simpl later orc))"
proof -
  note c = initializeCoreComponents_fails[OF assms(1), of env]
  from c(1) obtain e orc1 where e: "initializeCoreComponents env orc = (Inl e, orc1)"
    by (cases "initializeCoreComponents env orc") auto
  then have r: "orchestrator_initialize env simpl later orc
                  = (Inl orchestration_failed, cleanup simpl orc1)"
    using assms(2) by (simp add: orchestrator_initialize_def)
  show "fst (orchestrator_initialize env simpl later orc) = Inl orchestration_failed"
    by (simp add: r)
  show "config_absent (orch_initializer (snd (orchestrator_initialize env simpl later orc)))"
    using c(2) e by (simp add: r cleanup_def)
  show "\<not> orch_initialized (snd (orchestrator_initialize env simpl later orc))"
    using c(4) e assms(2) by (simp add: r cleanup_def)
qed

lemma orchestrator_after_invariant:
  "config_absent (orch_initializer (orchestrator_after ops))
   \<and> \<not> orch_initialized (orchestrator_after ops)"
proof (induction ops rule: rev_induct)
  case Nil
  then show ?case
    by (simp add: orchestrator_after_def new_orchestrator_def new_initializer_def
        config_absent_def Map_keys_def)
next
  case (snoc op ops)
  have step: "orchestrator_after (ops @ [op]) = apply_orchestrator_op op (orchestrator_after ops)"
    by (simp add: orchestrator_after_def)
  let ?o = "orchestrator_after ops"
  from snoc have inv: "config_absent (orch_initializer ?o)" "\<not> orch_initialized ?o" by simp_all
  have sh: "orchestrator_shutdown env simpl ?o = ?o" for env simpl
    using inv(2) by (simp add: orchestrator_shutdown_def)
  show ?case
    unfolding step
    using orchestrator_initialize_fails(2,3)[OF inv] inv
    by (cases op) (simp_all add: sh)
qed

text \<open>
  C9. Whatever calls of \<^verbatim>\<open>initialize()\<close>, \<^verbatim>\<open>shutdown()\<close> and \<^verbatim>\<open>restart()\<close> came before
  on an orchestrator, and whatever the components, the services and the later phases
  do, \<^verbatim>\<open>initialize()\<close> throws the \<^verbatim>\<open>InitializationError\<close> of a failed orchestration
  and the orchestrator stays uninitialized: the core-component phase throws an
  \<^verbatim>\<open>InitializationError\<close>. That phase registers the components logger and eventBus
  and no other, while the integration check fails on every initializer whose
  initialized set lacks config.
\<close>

theorem orchestrator_initialize_always_fails:
  "fst (orchestrator_initialize env simpl later (orchestrator_after ops))
     = Inl (Exn InitializationError ''Backend orchestration failed'')
   \<and> \<not> orch_initialized (snd (orchestrator_initialize env simpl later (orchestrator_after ops)))
   \<and> (\<exists>e. fst (initializeCoreComponents env (orchestrator_after ops)) = Inl e
          \<and> err_class e = InitializationError)
   \<and> Map_keys (components (registerComponent createEventBusComponent
                  (registerComponent createLoggerComponent new_initializer)))
       = [''logger'', ''eventBus'']
   \<and> (''config'' \<notin> set (initializedComponents bi) \<longrightarrow> verifySystemIntegration bi \<noteq> Inr ())"
proof -
  note inv = orchestrator_after_invariant[of ops]
  have 1: "fst (orchestrator_initialize env simpl later (orchestrator_after ops))
     = Inl (Exn InitializationError ''Backend orchestration failed'')"
    using orchestrator_initialize_fails(1)[of "orchestrator_after ops" env simpl later] inv
    by (simp add: orchestration_failed_def)
  have 2: "\<not> orch_initialized (snd (orchestrator_initialize env simpl later (orchestrator_after ops)))"
    using orchestrator_initialize_fails(3)[of "orchestrator_after ops" env simpl later] inv
    by simp
  have 3: "\<exists>e. fst (initializeCoreComponents env (orchestrator_after ops)) = Inl e
          \<and> err_class e = InitializationError"
    using initializeCoreComponents_fails(1)[of "orchestrator_after ops" env] inv by simp
  have 4: "Map_keys (components (registerComponent createEventBusComponent
                  (registerComponent createLoggerComponent new_initializer)))
       = [''logger'', ''eventBus'']"
    by (simp add: initializer_eval)
  have 5: "''config'' \<notin> set (initializedComponents bi) \<longrightarrow> verifySystemIntegration bi \<noteq> Inr ()"
    by (auto simp: verifySystemIntegration_iff criticalComponents_def)
  from 1 2 3 4 5 show ?thesis by blast
qed

theorem orchestrator_initialize_always_fails_witness:
  "fst (orchestrator_initialize ok_env all_stop later_ok new_orchestrator)
     = Inl (Exn InitializationError ''Backend orchestration failed'')
   \<and> fst (orchestrator_initialize ok_env all_stop later_ok
            (orchestrator_after [Initialize ok_env all_stop later_ok,
                                 Restart ok_env all_stop later_ok]))
     = Inl (Exn InitializationError ''Backend orchestration failed'')
   \<and> fst (initializeCoreComponents ok_env new_orchestrator)
     = Inl (Exn InitializationError ''Critical components not initialized: config'')
   \<and> verifySystemIntegration orchestrator_components \<noteq> Inr ()"
proof -
  have e: "orchestrator_after [] = new_orchestrator" by (simp add: orchestrator_after_def)
  have c: "''config'' \<notin> set (initializedComponents orchestrator_components)"
    by (simp add: orchestrator_components_def initializer_eval)
  have k: "fst (initializeCoreComponents ok_env new_orchestrator)
     = Inl (Exn InitializationError ''Critical components not initialized: config'')"
    by (simp add: initializeCoreComponents_def new_orchestrator_def initializer_eval)
  show ?thesis
    using orchestrator_initialize_always_fails[of ok_env all_stop later_ok "[]"
        orchestrator_components]
      orchestrator_initialize_always_fails[of ok_env all_stop later_ok
        "[Initialize ok_env all_stop later_ok, Restart ok_env all_stop later_ok]"
        orchestrator_components]
      c k
    unfolding e by blast
qed

section \<open>Transitions and the restart limit\<close>
















text \<open>
  Outside the amended C4: a timer left behind by the second \<^verbatim>\<open>start()\<close> of a service
  that went into Error at the restart limit fires on the stopped service and takes it
  from Stopped to Error.
\<close>

lemma leaked_timer_forces_error:
  "state stopped_with_timer = STOPPED
   \<and> timer_handle stopped_with_timer = False
   \<and> live_timers stopped_with_timer = 1
   \<and> history (timer_fires (Resolve True) ok_stop ok_start stopped_with_timer)
       = [STARTING, RUNNING, ERROR, STARTING, RUNNING, STOPPING, STOPPED, ERROR]"
  by (simp add: stopped_with_timer_def no_restart_service_def ok_start_def ok_stop_def
      lifecycle_defs)
















end
